theory Spec2Isabelle
  imports Complex_Main "HOL-Library.AList" "HOL-Library.Multiset" "HOL-Library.Word"
begin

section \<open>Instance manager: snapshot archive (zipDir)\<close>

text \<open>
  The world directory is a tree. A regular file carries a flag telling whether
  \<^verbatim>\<open>os.Open\<close> and \<^verbatim>\<open>io.Copy\<close> succeed on it, a directory a flag telling whether
  its listing can be read; \<open>Unreadable\<close> is an entry on which \<^verbatim>\<open>Lstat\<close> fails. The
  children of a directory are listed in the order in which \<^verbatim>\<open>filepath.Walk\<close> visits
  them, which is the lexical order of their names. Writing to the archive itself is taken
  to succeed.
\<close>

datatype fsnode = File string bool | Dir string bool "fsnode list" | Unreadable string

fun node_name :: "fsnode \<Rightarrow> string" where
  "node_name (File n ok) = n"
| "node_name (Dir n ok cs) = n"
| "node_name (Unreadable n) = n"

text \<open>\<^verbatim>\<open>strings.Split(s, sep)\<close> for a separator of one character.\<close>

fun split_on :: "char \<Rightarrow> string \<Rightarrow> string list" where
  "split_on c [] = [[]]"
| "split_on c (x # xs) =
     (if x = c then [] # split_on c xs
      else (case split_on c xs of [] \<Rightarrow> [[x]] | w # ws \<Rightarrow> (x # w) # ws))"

text \<open>What the walk function handed to \<^verbatim>\<open>filepath.Walk\<close> returns.\<close>

datatype walk_ret = WalkNil | SkipDir | WalkErr

text \<open>
  The function literal of \<^verbatim>\<open>zipDir\<close>, called with the path relative to the source
  directory and with the error that \<^verbatim>\<open>filepath.Walk\<close> met on the entry (\<open>err\<close> is
  true when there is one): the result and the names of the archive entries it creates.
  The first thing it does is return the error. The header of a file is created before
  the file is opened, so a file that cannot be read still leaves its entry.
\<close>

definition zip_visit ::
    "string list \<Rightarrow> string \<Rightarrow> bool \<Rightarrow> bool \<Rightarrow> bool \<Rightarrow> walk_ret \<times> string list" where
  "zip_visit blacklist relPath isDir readable err =
     (if err then (WalkErr, [])
      else if relPath = ''.'' then (WalkNil, [])
      else if list_ex (\<lambda>p. p \<in> set blacklist) (split_on CHR ''/'' relPath)
        then (if isDir then (SkipDir, []) else (WalkNil, []))
      else if isDir then (WalkNil, [relPath @ ''/''])
      else if readable then (WalkNil, [relPath])
      else (WalkErr, [relPath]))"

definition child_path :: "string \<Rightarrow> string \<Rightarrow> string" where
  "child_path rel n = (if rel = ''.'' then n else rel @ ''/'' @ n)"

text \<open>
  \<^verbatim>\<open>filepath.Walk\<close>: the entries written and whether the walk stopped with an error.
  For a directory it reads the listing first and then calls the function once, with the
  error of the listing if there is one; it descends only when both the listing and the
  function succeed, and a directory for which the function returns \<^verbatim>\<open>SkipDir\<close> is
  passed over. For an entry on which \<^verbatim>\<open>Lstat\<close> fails it calls the function with that
  error.
\<close>

fun walk :: "string list \<Rightarrow> string \<Rightarrow> fsnode \<Rightarrow> string list \<times> bool"
  and walk_children :: "string list \<Rightarrow> string \<Rightarrow> fsnode list \<Rightarrow> string list \<times> bool" where
  "walk bl rel (File n ok) =
     (case zip_visit bl rel False ok False of (r, es) \<Rightarrow> (es, r = WalkErr))"
| "walk bl rel (Dir n ok cs) =
     (case zip_visit bl rel True True (\<not> ok) of
        (SkipDir, es) \<Rightarrow> (es, False)
      | (WalkErr, es) \<Rightarrow> (es, True)
      | (WalkNil, es) \<Rightarrow>
          (if \<not> ok then (es, False)
           else (case walk_children bl rel cs of (es', e) \<Rightarrow> (es @ es', e))))"
| "walk bl rel (Unreadable n) =
     (case zip_visit bl rel False False True of (r, es) \<Rightarrow> (es, r = WalkErr))"
| "walk_children bl rel [] = ([], False)"
| "walk_children bl rel (c # cs) =
     (case walk bl (child_path rel (node_name c)) c of
        (es, e) \<Rightarrow>
          (if e then (es, True)
           else (case walk_children bl rel cs of (es', e') \<Rightarrow> (es @ es', e'))))"

datatype zip_error = ZipCreateFailed | ZipWalkFailed

text \<open>
  \<^verbatim>\<open>zipDir(srcDir, destZip, blacklist)\<close>: the names of the entries of the archive,
  or the error. \<^verbatim>\<open>create_ok\<close> tells whether the destination file can be created.
\<close>

definition zipDir :: "fsnode \<Rightarrow> bool \<Rightarrow> string list \<Rightarrow> zip_error + string list" where
  "zipDir srcDir create_ok blacklist =
     (if \<not> create_ok then Inl ZipCreateFailed
      else (case walk blacklist ''.'' srcDir of
              (es, True) \<Rightarrow> Inl ZipWalkFailed
            | (es, False) \<Rightarrow> Inr es))"

definition world_blacklist :: "string list" where
  "world_blacklist = [''advancements'', ''playerdata'', ''stats'']"

text \<open>The segments of an archive entry name.\<close>

definition segments :: "string \<Rightarrow> string list" where
  "segments e = split_on CHR ''/'' e"

definition pruned_ok :: "string list \<Rightarrow> string list \<Rightarrow> bool" where
  "pruned_ok bl es = list_all (\<lambda>e. list_all (\<lambda>p. p \<notin> set bl) (segments e)) es"

section \<open>Instance manager: port pool\<close>

text \<open>
  \<^verbatim>\<open>type IntHeap []int\<close> with its five methods. \<^verbatim>\<open>Pop\<close> indexes the last element
  and panics on an empty slice: \<open>None\<close>.
\<close>

type_synonym IntHeap = "int list"

definition Len :: "IntHeap \<Rightarrow> nat" where
  "Len h = length h"

definition Less :: "IntHeap \<Rightarrow> nat \<Rightarrow> nat \<Rightarrow> bool" where
  "Less h i j = (h ! i < h ! j)"

definition Swap :: "IntHeap \<Rightarrow> nat \<Rightarrow> nat \<Rightarrow> IntHeap" where
  "Swap h i j = h[i := h ! j, j := h ! i]"

definition Push :: "IntHeap \<Rightarrow> int \<Rightarrow> IntHeap" where
  "Push h x = h @ [x]"

definition Pop :: "IntHeap \<Rightarrow> (int \<times> IntHeap) option" where
  "Pop h = (if h = [] then None else Some (last h, butlast h))"

text \<open>
  The functions of Go's \<^verbatim>\<open>container/heap\<close> that \<^verbatim>\<open>allocatePort\<close> and
  \<^verbatim>\<open>releasePort\<close> call, over the methods above. \<^verbatim>\<open>up\<close> computes the parent as
  \<^verbatim>\<open>(j - 1) / 2\<close>, which is 0 for \<^verbatim>\<open>j = 0\<close> in Go as it is on \<open>nat\<close>; the test
  \<^verbatim>\<open>j1 < 0\<close> of \<^verbatim>\<open>down\<close> guards against integer overflow, which no slice length reaches.
\<close>

function up :: "IntHeap \<Rightarrow> nat \<Rightarrow> IntHeap" where
  "up h j =
     (let i = (j - 1) div 2 in
      if i = j \<or> \<not> Less h j i then h else up (Swap h i j) i)"
  by pat_completeness auto
termination
  by (relation "measure (\<lambda>(h, j). j)") auto

declare up.simps [simp del]

function down :: "IntHeap \<Rightarrow> nat \<Rightarrow> nat \<Rightarrow> IntHeap" where
  "down h i n =
     (let j1 = 2 * i + 1 in
      if j1 \<ge> n then h
      else
        let j = (if j1 + 1 < n \<and> Less h (j1 + 1) j1 then j1 + 1 else j1) in
        if \<not> Less h j i then h else down (Swap h i j) j n)"
  by pat_completeness auto
termination
  by (relation "measure (\<lambda>(h, i, n). n - i)") auto

declare down.simps [simp del]

definition heap_Push :: "IntHeap \<Rightarrow> int \<Rightarrow> IntHeap" where
  "heap_Push h x = (let h1 = Push h x in up h1 (Len h1 - 1))"

definition heap_Pop :: "IntHeap \<Rightarrow> (int \<times> IntHeap) option" where
  "heap_Pop h =
     (if Len h = 0 then None
      else let n = Len h - 1 in Pop (down (Swap h 0 n) 0 n))"

text \<open>
  The pool: \<^verbatim>\<open>nextPort\<close> and \<^verbatim>\<open>available\<close>. Go's \<^verbatim>\<open>int\<close> has 64 bits and
  \<^verbatim>\<open>nextPort++\<close> wraps around: \<open>int64 x\<close> is the value of the 64-bit signed integer
  that the mathematical result \<open>x\<close> leaves. \<^verbatim>\<open>allocatePort\<close> and \<^verbatim>\<open>releasePort\<close> hold
  the mutex \<^verbatim>\<open>serversMux\<close> for their whole body; the definitions are these bodies, and
  the handlers below that call them say what happens when the mutex cannot be taken.
\<close>

definition int64 :: "int \<Rightarrow> int" where
  "int64 x = (x + 2 ^ 63) mod 2 ^ 64 - 2 ^ 63"

record pool =
  nextPort :: int
  available :: IntHeap

definition init_pool :: pool where
  "init_pool = \<lparr>nextPort = 3000, available = []\<rparr>"

definition allocatePort :: "'a pool_scheme \<Rightarrow> int \<times> 'a pool_scheme" where
  "allocatePort s =
     (if Len (available s) > 0 then
        (case heap_Pop (available s) of
           Some (p, h) \<Rightarrow> (p, s\<lparr>available := h\<rparr>)
         | None \<Rightarrow> (0, s))
      else (nextPort s, s\<lparr>nextPort := int64 (nextPort s + 1)\<rparr>))"

definition releasePort :: "int \<Rightarrow> 'a pool_scheme \<Rightarrow> 'a pool_scheme" where
  "releasePort p s =
     (if p \<le> 0 then s else s\<lparr>available := heap_Push (available s) p\<rparr>)"

text \<open>Sequences of pool operations, and the ports that successive allocations return.\<close>

datatype pool_op = Allocate | Release int

fun run_op :: "pool_op \<Rightarrow> pool \<Rightarrow> pool" where
  "run_op Allocate s = snd (allocatePort s)"
| "run_op (Release p) s = releasePort p s"

fun run_ops :: "pool_op list \<Rightarrow> pool \<Rightarrow> pool" where
  "run_ops [] s = s"
| "run_ops (x # xs) s = run_ops xs (run_op x s)"

text \<open>Every port released had been handed out: it lies below the watermark.\<close>

fun handed_out :: "pool_op list \<Rightarrow> pool \<Rightarrow> bool" where
  "handed_out [] s = True"
| "handed_out (Allocate # xs) s = handed_out xs (run_op Allocate s)"
| "handed_out (Release p # xs) s = (p < nextPort s \<and> handed_out xs (run_op (Release p) s))"

fun allocations :: "nat \<Rightarrow> 'a pool_scheme \<Rightarrow> int list" where
  "allocations 0 s = []"
| "allocations (Suc n) s = (case allocatePort s of (p, s') \<Rightarrow> p # allocations n s')"


text \<open>
  The heap order of \<^verbatim>\<open>container/heap\<close>, and the conditions under which \<^verbatim>\<open>up\<close> and
  \<^verbatim>\<open>down\<close> restore it: every element but one is in order with its parent.
\<close>

definition is_heap :: "int list \<Rightarrow> bool" where
  "is_heap h = (\<forall>k < length h. 0 < k \<longrightarrow> h ! ((k - 1) div 2) \<le> h ! k)"

definition up_inv :: "int list \<Rightarrow> nat \<Rightarrow> bool" where
  "up_inv h j = ((\<forall>k < length h. 0 < k \<and> k \<noteq> j \<longrightarrow> h ! ((k - 1) div 2) \<le> h ! k)
     \<and> (\<forall>k < length h. 0 < k \<and> 0 < j \<and> (k - 1) div 2 = j \<longrightarrow> h ! ((j - 1) div 2) \<le> h ! k))"

definition down_inv :: "int list \<Rightarrow> nat \<Rightarrow> nat \<Rightarrow> bool" where
  "down_inv h i n = ((\<forall>k < n. 0 < k \<and> (k - 1) div 2 \<noteq> i \<longrightarrow> h ! ((k - 1) div 2) \<le> h ! k)
     \<and> (\<forall>k < n. 0 < k \<and> 0 < i \<and> (k - 1) div 2 = i \<longrightarrow> h ! ((i - 1) div 2) \<le> h ! k))"

definition heap_upto :: "int list \<Rightarrow> nat \<Rightarrow> bool" where
  "heap_upto h n = (\<forall>k < n. 0 < k \<longrightarrow> h ! ((k - 1) div 2) \<le> h ! k)"

text \<open>The smallest free port: what the next allocation returns.\<close>

definition lowest_free :: "'a pool_scheme \<Rightarrow> int" where
  "lowest_free s = (if available s = [] then nextPort s else Min (set (available s)))"

definition pool_inv :: "'a pool_scheme \<Rightarrow> bool" where
  "pool_inv s = (is_heap (available s) \<and> list_all (\<lambda>p. p < nextPort s) (available s)
                 \<and> - (2 ^ 63) \<le> nextPort s)"

section \<open>Orchestrator: registry, poller, placement and reaper\<close>

text \<open>
  The structs \<^verbatim>\<open>Instance\<close> and \<^verbatim>\<open>InstanceManager\<close>. \<^verbatim>\<open>CPUPercent\<close> is a
  \<^verbatim>\<open>float64\<close> decoded from JSON, hence finite; the code only compares it, and the order of
  finite floats is that of the reals they denote. The RAM fields are \<^verbatim>\<open>uint64\<close>.
\<close>

record Instance =
  Name :: string
  Players :: "string list"
  PlayerCount :: int
  TPS :: int
  Port :: int
  Status :: string

record InstanceManager =
  State :: string
  Domain :: string
  Name :: string
  CPUPercent :: real
  RAMUsedMB :: "64 word"
  RAMTotalMB :: "64 word"
  Instances :: "Instance list"

text \<open>
  The registry \<^verbatim>\<open>instanceManagers\<close>. \<^verbatim>\<open>loadConfig\<close> and \<^verbatim>\<open>createIM\<close> append
  the composite literal \<^verbatim>\<open>InstanceManager{Domain: d, Name: n}\<close>, whose other fields are
  zero; \<^verbatim>\<open>deleteIM\<close> removes the first entry with the given domain and name.
\<close>

definition new_im :: "string \<Rightarrow> string \<Rightarrow> InstanceManager" where
  "new_im d n = \<lparr>State = [], Domain = d, Name = n, CPUPercent = 0,
                 RAMUsedMB = 0, RAMTotalMB = 0, Instances = []\<rparr>"

definition loadConfig :: "(string \<times> string) list \<Rightarrow> InstanceManager list" where
  "loadConfig cfg = map (\<lambda>(d, n). new_im d n) cfg"

definition createIM :: "string \<Rightarrow> string \<Rightarrow> InstanceManager list \<Rightarrow> InstanceManager list" where
  "createIM d n ims = ims @ [new_im d n]"

fun deleteIM :: "string \<Rightarrow> string \<Rightarrow> InstanceManager list \<Rightarrow> InstanceManager list" where
  "deleteIM d n [] = []"
| "deleteIM d n (im # ims) =
     (if Domain im = d \<and> InstanceManager.Name im = n then ims else im # deleteIM d n ims)"

datatype reg_op = CreateIM string string | DeleteIM string string

fun reg_step :: "reg_op \<Rightarrow> InstanceManager list \<Rightarrow> InstanceManager list" where
  "reg_step (CreateIM d n) ims = createIM d n ims"
| "reg_step (DeleteIM d n) ims = deleteIM d n ims"

definition registry :: "(string \<times> string) list \<Rightarrow> reg_op list \<Rightarrow> InstanceManager list" where
  "registry cfg ops = fold reg_step ops (loadConfig cfg)"

text \<open>
  \<^verbatim>\<open>fetchInstanceSummaries\<close>: what one poll of a node's \<^verbatim>\<open>/system\<close> gives, and the
  entry it leads to. The results arrive on a channel in the order of completion, so the
  poller's output is some permutation of \<open>fetchInstanceSummaries\<close>.
\<close>

datatype poll = TransportError | ReadError | DecodeError
  | Sys real "64 word" "64 word" "Instance list"

fun poll_one :: "InstanceManager \<Rightarrow> poll \<Rightarrow> InstanceManager" where
  "poll_one im TransportError = im\<lparr>State := ''Offline''\<rparr>"
| "poll_one im ReadError = im\<lparr>State := ''Warning''\<rparr>"
| "poll_one im DecodeError = im\<lparr>State := ''Warning''\<rparr>"
| "poll_one im (Sys c u t is) =
     im\<lparr>CPUPercent := c, RAMUsedMB := u, RAMTotalMB := t, Instances := is, State := ''Online''\<rparr>"

definition fetchInstanceSummaries ::
    "InstanceManager list \<Rightarrow> (InstanceManager \<Rightarrow> poll) \<Rightarrow> InstanceManager list" where
  "fetchInstanceSummaries ims net = map (\<lambda>im. poll_one im (net im)) ims"

text \<open>
  The merge of \<^verbatim>\<open>statusHandler\<close> rewrites \<^verbatim>\<open>PlayerCount\<close> and \<^verbatim>\<open>TPS\<close> of
  instances that the proxy knows; \<open>upd\<close> stands for that rewriting of one instance.
\<close>

definition merge_proxy :: "(Instance \<Rightarrow> Instance) \<Rightarrow> InstanceManager list \<Rightarrow> InstanceManager list" where
  "merge_proxy upd ims = map (\<lambda>im. im\<lparr>Instances := map upd (Instances im)\<rparr>) ims"

text \<open>
  A snapshot of the poller, as \<^verbatim>\<open>getInstanceSummary\<close> reads it from \<^verbatim>\<open>/status\<close>:
  the registry after some operations, polled, in some order of arrival, merged.
\<close>

definition poller_snapshot :: "InstanceManager list \<Rightarrow> bool" where
  "poller_snapshot snap =
     (\<exists>cfg ops net polled upd.
        mset polled = mset (fetchInstanceSummaries (registry cfg ops) net)
        \<and> snap = merge_proxy upd polled)"

text \<open>
  Step 4 of \<^verbatim>\<open>ensureInstance\<close>: the comparison handed to \<^verbatim>\<open>sort.Slice\<close>. The two
  differences are computed on \<^verbatim>\<open>uint64\<close>, so they wrap around when a node reports more
  used than total memory.
\<close>

definition im_less :: "InstanceManager \<Rightarrow> InstanceManager \<Rightarrow> bool" where
  "im_less a b =
     (if CPUPercent a = CPUPercent b
        then (let freeRAMi = RAMTotalMB a - RAMUsedMB a;
                  freeRAMj = RAMTotalMB b - RAMUsedMB b
              in freeRAMi > freeRAMj)
      else CPUPercent a < CPUPercent b)"

text \<open>
  \<^verbatim>\<open>sort.Slice\<close> is not stable: it returns some permutation in which no later element
  is less than an earlier one. The model takes the sorting function as a parameter
  \<open>srt\<close> with that contract; \<open>sort_by\<close> is one such function.
\<close>

definition sort_contract :: "(InstanceManager list \<Rightarrow> InstanceManager list) \<Rightarrow> bool" where
  "sort_contract srt =
     (\<forall>xs. mset (srt xs) = mset xs \<and> sorted_wrt (\<lambda>a b. \<not> im_less b a) (srt xs))"



text \<open>
  The rest of step 4: the filter on the CPU reading, the sort and \<^verbatim>\<open>filtered[0]\<close>, which
  would panic on an empty slice.
\<close>

datatype placement = NoCapacity | Selected InstanceManager | IndexOutOfRange

definition place :: "(InstanceManager list \<Rightarrow> InstanceManager list) \<Rightarrow> InstanceManager list \<Rightarrow> placement" where
  "place srt ims =
     (let filtered = filter (\<lambda>im. CPUPercent im \<noteq> 0) ims in
      if length filtered = 0 then NoCapacity
      else (case srt filtered of [] \<Rightarrow> IndexOutOfRange | selected # rest \<Rightarrow> Selected selected))"



datatype request =
    AddServer string string int
  | WaitForInstance string
  | StartServer string string
  | StopServer string string bool
  | Sleep2s
  | RemoveServer string bool

datatype ensured = AlreadyRouted | SummaryFailed | NoManagers | RegisteredExisting
  | Waited | UnhandledStatus | NoOnlineManagers | StartFailed | PortNotFound
  | StartedAndRegistered | Panicked




text \<open>
  \<^verbatim>\<open>cleanupEmptyServers\<close>. The body of the inner loop for one instance of one node:
  \<open>stop_ok\<close> and \<open>remove_ok\<close> tell whether \<^verbatim>\<open>stopServerOnIM\<close> and
  \<^verbatim>\<open>removeServerFromProxy\<close> return no error for it. In the sweep they are indexed by the
  position of the node and of the instance in the snapshot.
\<close>

definition reap_instance :: "bool \<Rightarrow> bool \<Rightarrow> InstanceManager \<Rightarrow> Instance \<Rightarrow> request list" where
  "reap_instance stop_ok remove_ok im inst =
     (if Instance.Name inst = ''lobby'' then []
      else if PlayerCount inst = 0
              \<and> (Instance.Status inst = ''running'' \<or> Instance.Status inst = ''started'')
        then (if \<not> stop_ok then [StopServer (Domain im) (Instance.Name inst) False]
              else [StopServer (Domain im) (Instance.Name inst) True, Sleep2s,
                    RemoveServer (Instance.Name inst) remove_ok])
      else [])"

definition reap_manager ::
    "(nat \<Rightarrow> bool) \<Rightarrow> (nat \<Rightarrow> bool) \<Rightarrow> InstanceManager \<Rightarrow> request list" where
  "reap_manager stop_ok remove_ok im =
     concat (map (\<lambda>(j, inst). reap_instance (stop_ok j) (remove_ok j) im inst)
                 (enumerate 0 (Instances im)))"

definition cleanupEmptyServers ::
    "InstanceManager list option \<Rightarrow> (nat \<Rightarrow> nat \<Rightarrow> bool) \<Rightarrow> (nat \<Rightarrow> nat \<Rightarrow> bool) \<Rightarrow> request list" where
  "cleanupEmptyServers summ stop_ok remove_ok =
     (case summ of
        None \<Rightarrow> []
      | Some ims \<Rightarrow>
          if length ims = 0 then []
          else concat (map (\<lambda>(i, im). reap_manager (stop_ok i) (remove_ok i) im)
                           (enumerate 0 ims)))"

text \<open>An instance that the reaper may collect.\<close>

definition reapable :: "Instance \<Rightarrow> bool" where
  "reapable inst =
     (Instance.Name inst \<noteq> ''lobby'' \<and> PlayerCount inst = 0
      \<and> (Instance.Status inst = ''running'' \<or> Instance.Status inst = ''started''))"

text \<open>What a request of the reaper sweep must be justified by in the snapshot.\<close>

definition reap_request_ok :: "InstanceManager list \<Rightarrow> request \<Rightarrow> bool" where
  "reap_request_ok ims q =
     (case q of
        StopServer d n ok \<Rightarrow> n \<noteq> ''lobby''
          \<and> (\<exists>im \<in> set ims. \<exists>inst \<in> set (Instances im).
                 Domain im = d \<and> Instance.Name inst = n \<and> reapable inst)
      | RemoveServer n ok \<Rightarrow> n \<noteq> ''lobby''
          \<and> (\<exists>im \<in> set ims. \<exists>inst \<in> set (Instances im). Instance.Name inst = n \<and> reapable inst)
      | Sleep2s \<Rightarrow> True
      | _ \<Rightarrow> False)"

section \<open>Instance manager: child processes and handlers\<close>

text \<open>
  \<^verbatim>\<open>type Server struct\<close>. \<^verbatim>\<open>Cmd\<close> is the pointer to the command of the child, here the
  index of the child in the table of processes, \<open>None\<close> for \<^verbatim>\<open>nil\<close>; \<^verbatim>\<open>cleanupOnce\<close>
  tells whether the \<^verbatim>\<open>sync.Once\<close> has run.
\<close>

record Server =
  ID :: int
  Port :: int
  Cmd :: "nat option"
  Status :: string
  cleanupOnce :: bool

text \<open>
  A child process: running, interrupted (it received \<^verbatim>\<open>SIGINT\<close> and nobody waits for
  it), exited or killed but not yet waited for, or reaped by \<^verbatim>\<open>Wait\<close>; and whether the
  scanner has seen its readiness line. \<^verbatim>\<open>Process.Signal\<close> fails on a reaped process only.
\<close>

datatype proc_state = Running | Interrupted | Exited | Reaped

record proc =
  life :: proc_state
  ready :: bool

text \<open>
  The global variables of the instance manager. Both maps hold pointers to \<^verbatim>\<open>Server\<close>
  objects, which the handlers update through either: \<open>objs\<close> is the store of these
  objects, a pointer is an index into it, and \<open>None\<close> is \<^verbatim>\<open>nil\<close>. \<open>serverMap\<close> is an
  association list, in the order in which \<^verbatim>\<open>range\<close> happens to go through the map.

  The two mutexes. A state describes the instance manager between two steps of its
  handlers, when \<^verbatim>\<open>mu\<close> is free. \<^verbatim>\<open>serversMux\<close> is free too unless a handler has
  panicked while it held it: \<^verbatim>\<open>net/http\<close> recovers the panic and goes on serving, nothing
  unlocks the mutex, and \<open>serversMux_locked\<close> is true from then on. Every later
  \<^verbatim>\<open>serversMux.Lock()\<close>, also the one of \<^verbatim>\<open>allocatePort\<close> and \<^verbatim>\<open>releasePort\<close>, waits
  for ever.
\<close>

record im_state = pool +
  objs :: "Server list"
  servers :: "(int \<times> nat) list"
  serverMap :: "(string \<times> nat option) list"
  procs :: "proc list"
  serversMux_locked :: bool

definition init_state :: im_state where
  "init_state = \<lparr>nextPort = 3000, available = [], objs = [], servers = [], serverMap = [],
                  procs = [], serversMux_locked = False\<rparr>"

definition proxyApiHost :: string where
  "proxyApiHost = ''http://172.30.0.1:8081''"

definition defaultFallback :: string where
  "defaultFallback = ''lobby''"

definition token :: string where
  "token = []"

definition repoWorlds :: string where
  "repoWorlds = ''JuMaEn16/lunexia-worlds''"

text \<open>\<^verbatim>\<open>strings.Contains\<close>, and the test of the scanner for the readiness line.\<close>

fun has_prefix :: "string \<Rightarrow> string \<Rightarrow> bool" where
  "has_prefix [] s = True"
| "has_prefix (p # ps) [] = False"
| "has_prefix (p # ps) (c # cs) = (p = c \<and> has_prefix ps cs)"

fun Contains :: "string \<Rightarrow> string \<Rightarrow> bool" where
  "Contains [] sub = (sub = [])"
| "Contains (c # cs) sub = (has_prefix sub (c # cs) \<or> Contains cs sub)"

definition ready_line :: "string \<Rightarrow> bool" where
  "ready_line line = (Contains line ''Done'' \<and> Contains line ''For help'')"

text \<open>
  The merged output of a child: its lines with the time, in milliseconds after the start,
  at which the scanner reads each, and the time at which the stream ends, if it does.
  A line is the bytes before a newline. The \<^verbatim>\<open>bufio.Scanner\<close> has the default buffer
  of \<^verbatim>\<open>MaxScanTokenSize\<close> bytes: at a line that does not fit, newline included, \<^verbatim>\<open>Scan\<close>
  returns false and the loop ends as it does at the end of the stream.
  \<open>started_at\<close> is the time at which the goroutine closes the channel \<^verbatim>\<open>started\<close>, and
  whether it does so for a readiness line: at the first such line, or else where the loop
  ends, at a line too long or at the end of the stream. The \<^verbatim>\<open>select\<close> takes the
  branch of \<^verbatim>\<open>started\<close> when that time is before the 60 s of \<^verbatim>\<open>time.After\<close>; when both
  are ready at once Go picks either, and the model picks the timeout.
\<close>

definition MaxScanTokenSize :: nat where
  "MaxScanTokenSize = 64 * 1024"

definition too_long :: "string \<Rightarrow> bool" where
  "too_long line = (MaxScanTokenSize \<le> length line)"

fun started_at :: "(nat \<times> string) list \<Rightarrow> nat option \<Rightarrow> (nat \<times> bool) option" where
  "started_at [] end_time = (case end_time of None \<Rightarrow> None | Some t \<Rightarrow> Some (t, False))"
| "started_at ((t, line) # rest) end_time =
     (if too_long line then Some (t, False)
      else if ready_line line then Some (t, True)
      else started_at rest end_time)"

text \<open>\<^verbatim>\<open>fmt.Sprintf("paper_server_%d", port)\<close> and \<^verbatim>\<open>path.Base\<close>.\<close>

function show_nat :: "nat \<Rightarrow> string" where
  "show_nat n = (if n < 10 then [''0123456789'' ! n]
                 else show_nat (n div 10) @ [''0123456789'' ! (n mod 10)])"
  by pat_completeness auto
termination
  by (relation "measure id") auto

declare show_nat.simps [simp del]

definition show_int :: "int \<Rightarrow> string" where
  "show_int i = (if i < 0 then ''-'' @ show_nat (nat (- i)) else show_nat (nat i))"

definition server_dir :: "int \<Rightarrow> string" where
  "server_dir port = ''paper_server_'' @ show_int port"

definition path_Base :: "string \<Rightarrow> string" where
  "path_Base p =
     (if p = [] then ''.''
      else let q = rev (dropWhile (\<lambda>c. c = CHR ''/'') (rev p));
               b = last (split_on CHR ''/'' q)
           in if b = [] then ''/'' else b)"

text \<open>
  What a handler meets outside the process: the results of provisioning, of creating the
  pipe and of starting the child, the child's output, whether a child exits within 30 s
  of \<^verbatim>\<open>SIGINT\<close>, the proxy's answer to \<^verbatim>\<open>/move_from_to\<close>, whether the directory the
  handler looks for exists, the world directory and the results of creating the temporary
  file and the archive, of uploading and of copying the plugin. The answer of the proxy to
  \<^verbatim>\<open>/move_list_to\<close> is only logged and has no place here.
\<close>

datatype move_body = BadJSON | Parsed bool "string list"

datatype proxy_move = ProxyUnreachable | ProxyAnswer nat move_body

record env =
  setup_ok :: bool
  pipe_ok :: bool
  start_ok :: bool
  child_output :: "(nat \<times> string) list"
  child_eof :: "nat option"
  exits_in_time :: bool
  move_answer :: proxy_move
  dir_exists :: bool
  tmp_ok :: bool
  zip_create_ok :: bool
  world_dir :: fsnode
  upload_ok :: bool
  copy_ok :: bool

text \<open>What a handler does to the outside, in order.\<close>

datatype effect =
    SetupDir string
  | StartChild string nat
  | Signal nat
  | Kill nat
  | ProxyMoveFromTo string "string option" "string option"
  | ProxyMoveListTo "string list" string
  | ZipWorld string "string list"
  | Upload string string
  | CopyPlugin string
  | Sleep1s

text \<open>
  The bodies of the responses, one constructor for each message of the handlers, and the
  errors that \<^verbatim>\<open>stopServerHold\<close> and \<^verbatim>\<open>startHeldServer\<close> return. A handler that
  dereferences \<^verbatim>\<open>nil\<close> panics and sends no response; a handler that waits for
  \<^verbatim>\<open>serversMux\<close> while it is held by a panicked handler never responds (\<open>Blocked\<close>), and
  \<open>BlockedHoldingMu\<close> is the same while the handler itself holds \<^verbatim>\<open>mu\<close>, which would stop
  every other handler too. \<^verbatim>\<open>stopServerHold\<close> and \<^verbatim>\<open>startHeldServer\<close> either return,
  with an error or \<^verbatim>\<open>nil\<close>, or wait in the same two ways.
\<close>

datatype held_error = ProcessNotAvailable | SignalFailed | CopyFailed | RestartPipeFailed
  | RestartFailed | RestartTimedOut

datatype reply =
    MissingName
  | AlreadyRunning
  | SetupFailed
  | PipeFailed
  | StartFailed
  | StartTimedOut
  | Started string int
  | NotFound string
  | InternalIDNotFound string int
  | StopFailed
  | Stopped string
  | ProxyContactFailed
  | ProxyError nat
  | InvalidProxyResponse
  | ProxyReportedFailure
  | AlreadyStopped string
  | WorldDirMissing string
  | ServerDirMissing string
  | HeldError held_error
  | TempZipFailed
  | ZipFailed
  | TokenNotSet
  | UploadFailed
  | SavedAndRestarted string int
  | Restarted string int

datatype response = Response nat reply | Panic | Blocked | BlockedHoldingMu

datatype held_result = Returned "held_error option" | Waits | WaitsHoldingMu

definition new_child :: "im_state \<Rightarrow> nat \<times> im_state" where
  "new_child s = (length (procs s), s\<lparr>procs := procs s @ [\<lparr>life = Running, ready = False\<rparr>]\<rparr>)"

definition set_life :: "nat \<Rightarrow> proc_state \<Rightarrow> im_state \<Rightarrow> im_state" where
  "set_life pid l s = s\<lparr>procs := (procs s)[pid := (procs s ! pid)\<lparr>life := l\<rparr>]\<rparr>"

definition set_ready :: "nat \<Rightarrow> bool \<Rightarrow> im_state \<Rightarrow> im_state" where
  "set_ready pid b s = s\<lparr>procs := (procs s)[pid := (procs s ! pid)\<lparr>ready := b\<rparr>]\<rparr>"

text \<open>
  \<^verbatim>\<open>startServerHandler\<close>. \<^verbatim>\<open>allocatePort\<close> is the first to lock \<^verbatim>\<open>serversMux\<close>. The
  deferred function returns the port to the pool on every return before the
  registration.
\<close>

definition startServerHandler :: "env \<Rightarrow> string \<Rightarrow> im_state \<Rightarrow> response \<times> effect list \<times> im_state" where
  "startServerHandler e name s =
     (if name = [] then (Response 400 MissingName, [], s)
      else if map_of (serverMap s) name \<noteq> None then (Response 400 AlreadyRunning, [], s)
      else if serversMux_locked s then (Blocked, [], s)
      else
        case allocatePort s of (port, s1) \<Rightarrow>
        let dir = server_dir port in
        if \<not> setup_ok e
          then (Response 500 SetupFailed, [SetupDir dir], releasePort port s1)
        else if \<not> pipe_ok e
          then (Response 500 PipeFailed, [SetupDir dir], releasePort port s1)
        else if \<not> start_ok e
          then (Response 500 StartFailed, [SetupDir dir], releasePort port s1)
        else
          case new_child s1 of (pid, s2) \<Rightarrow>
          (case started_at (child_output e) (child_eof e) of
             Some (t, matched) \<Rightarrow>
               if t < 60000 then
                 let s3 = set_ready pid matched s2;
                     srv = length (objs s3);
                     s4 = s3\<lparr>objs := objs s3 @
                            [\<lparr>ID = port, Port = port, Cmd = Some pid, Status = ''running'',
                              cleanupOnce = False\<rparr>]\<rparr>;
                     s5 = s4\<lparr>servers := AList.update port srv (servers s4)\<rparr>;
                     s6 = s5\<lparr>serverMap := AList.update name (Some srv) (serverMap s5)\<rparr>
                 in (Response 200 (Started name port), [SetupDir dir, StartChild dir pid], s6)
               else (Response 504 StartTimedOut, [SetupDir dir, StartChild dir pid, Kill pid],
                     releasePort port (set_life pid Exited s2))
           | None \<Rightarrow>
               (Response 504 StartTimedOut, [SetupDir dir, StartChild dir pid, Kill pid],
                releasePort port (set_life pid Exited s2))))"

text \<open>
  \<^verbatim>\<open>stopServerHandler\<close>. It removes the name from \<^verbatim>\<open>serverMap\<close> before it locks
  \<^verbatim>\<open>serversMux\<close>, looks the server up in \<^verbatim>\<open>servers\<close> and signals the child. With the
  mutex held it evaluates \<^verbatim>\<open>srv.ID\<close> and \<^verbatim>\<open>realSrv.Cmd.Process\<close>: when \<^verbatim>\<open>srv\<close> or
  \<^verbatim>\<open>realSrv.Cmd\<close> is \<^verbatim>\<open>nil\<close> it panics and the mutex stays locked.
\<close>

definition stopServerHandler :: "string \<Rightarrow> im_state \<Rightarrow> response \<times> effect list \<times> im_state" where
  "stopServerHandler name s =
     (if name = [] then (Response 400 MissingName, [], s)
      else
        case map_of (serverMap s) name of
          None \<Rightarrow> (Response 404 (NotFound name), [], s)
        | Some srv \<Rightarrow>
            let s1 = s\<lparr>serverMap := AList.delete name (serverMap s)\<rparr> in
            if serversMux_locked s1 then (Blocked, [], s1)
            else
            (case srv of
               None \<Rightarrow> (Panic, [], s1\<lparr>serversMux_locked := True\<rparr>)
             | Some r \<Rightarrow>
                 (case map_of (servers s1) (ID (objs s1 ! r)) of
                    None \<Rightarrow> (Response 500 (InternalIDNotFound name (ID (objs s1 ! r))), [], s1)
                  | Some r' \<Rightarrow>
                      let realSrv = objs s1 ! r' in
                      (case Cmd realSrv of
                         None \<Rightarrow> (Panic, [], s1\<lparr>serversMux_locked := True\<rparr>)
                       | Some pid \<Rightarrow>
                           if life (procs s1 ! pid) = Reaped
                             then (Response 500 StopFailed, [Signal pid], s1)
                           else
                             let s2 = (if life (procs s1 ! pid) = Running
                                       then set_life pid Interrupted s1 else s1);
                                 s3 = s2\<lparr>servers := AList.delete (ID realSrv) (servers s2)\<rparr>
                             in (Response 200 (Stopped name), [Signal pid],
                                 releasePort (ID realSrv) s3)))))"

text \<open>
  \<^verbatim>\<open>stopServerHold(name, srv)\<close>. It locks \<^verbatim>\<open>serversMux\<close> after the child has been
  signalled and waited for.
\<close>

definition stopServerHold ::
    "env \<Rightarrow> string \<Rightarrow> nat \<Rightarrow> im_state \<Rightarrow> held_result \<times> effect list \<times> im_state" where
  "stopServerHold e name srv s =
     (let cmdPtr = Cmd (objs s ! srv); srvID = ID (objs s ! srv) in
      case cmdPtr of
        None \<Rightarrow>
          (Returned (Some ProcessNotAvailable), [],
           s\<lparr>serverMap := AList.update name None (serverMap s)\<rparr>)
      | Some pid \<Rightarrow>
          if life (procs s ! pid) = Reaped then (Returned (Some SignalFailed), [Signal pid], s)
          else
            let s1 = set_life pid Reaped s;
                fx = (if exits_in_time e then [Signal pid] else [Signal pid, Kill pid])
            in
            if serversMux_locked s1 then (Waits, fx, s1)
            else
              let s2 = s1\<lparr>servers := AList.delete srvID (servers s1)\<rparr>;
                  s3 = s2\<lparr>serverMap := AList.update name None (serverMap s2)\<rparr>
              in (Returned None, fx, s3))"

text \<open>
  \<^verbatim>\<open>startHeldServer(name, port, dir)\<close>. It locks \<^verbatim>\<open>serversMux\<close> while it holds
  \<^verbatim>\<open>mu\<close>, after it has set the status to \<^verbatim>\<open>running\<close>.
\<close>

definition startHeldServer ::
    "env \<Rightarrow> string \<Rightarrow> int \<Rightarrow> string \<Rightarrow> im_state \<Rightarrow> held_result \<times> effect list \<times> im_state" where
  "startHeldServer e name port dir s =
     (let srv = length (objs s);
          s0 = s\<lparr>objs := objs s @
                 [\<lparr>ID = port, Port = port, Cmd = None, Status = ''restarting'',
                   cleanupOnce = False\<rparr>]\<rparr>;
          s1 = s0\<lparr>serverMap := AList.update name (Some srv) (serverMap s0)\<rparr>
      in
      if \<not> copy_ok e then (Returned (Some CopyFailed), [CopyPlugin dir], s1)
      else if \<not> pipe_ok e
        then (Returned (Some RestartPipeFailed), [CopyPlugin dir],
              s1\<lparr>serverMap := AList.update name None (serverMap s1)\<rparr>)
      else if \<not> start_ok e
        then (Returned (Some RestartFailed), [CopyPlugin dir],
              s1\<lparr>serverMap := AList.update name None (serverMap s1)\<rparr>)
      else
        case new_child s1 of (pid, s2) \<Rightarrow>
        let s3 = s2\<lparr>objs := (objs s2)[srv := (objs s2 ! srv)\<lparr>Cmd := Some pid\<rparr>]\<rparr> in
        (case started_at (child_output e) (child_eof e) of
           Some (t, matched) \<Rightarrow>
             if t < 60000 then
               let s4 = set_ready pid matched s3;
                   s5 = s4\<lparr>objs := (objs s4)[srv := (objs s4 ! srv)\<lparr>cleanupOnce := True\<rparr>]\<rparr>
               in (case map_of (serverMap s5) name of
                     Some (Some currentSrv) \<Rightarrow>
                       let s6 = s5\<lparr>objs := (objs s5)[currentSrv :=
                                  (objs s5 ! currentSrv)\<lparr>Status := ''running''\<rparr>]\<rparr>;
                           s7 = s6\<lparr>servers :=
                                  AList.update (ID (objs s6 ! currentSrv)) currentSrv (servers s6)\<rparr>
                       in if serversMux_locked s6
                            then (WaitsHoldingMu, [CopyPlugin dir, StartChild dir pid], s6)
                          else (Returned None, [CopyPlugin dir, StartChild dir pid], s7)
                   | _ \<Rightarrow> (Returned None, [CopyPlugin dir, StartChild dir pid], s5))
             else (Returned (Some RestartTimedOut),
                   [CopyPlugin dir, StartChild dir pid, Kill pid],
                   (set_life pid Exited s3)\<lparr>serverMap := AList.update name None (serverMap s3)\<rparr>)
         | None \<Rightarrow>
             (Returned (Some RestartTimedOut), [CopyPlugin dir, StartChild dir pid, Kill pid],
              (set_life pid Exited s3)\<lparr>serverMap := AList.update name None (serverMap s3)\<rparr>)))"

text \<open>
  Part A of \<^verbatim>\<open>saveWorldHandler\<close> and \<^verbatim>\<open>restartWorldHandler\<close>: the request to the
  proxy, and either the response that ends the handler or the players moved. The URL is
  the constant \<^verbatim>\<open>proxyApiHost\<close> with a fixed path, which \<^verbatim>\<open>url.Parse\<close> accepts.
\<close>

definition evacuation :: "string \<Rightarrow> string option \<Rightarrow> effect" where
  "evacuation name reason =
     ProxyMoveFromTo name
       (if defaultFallback \<noteq> [] \<and> defaultFallback \<noteq> name then Some defaultFallback else None)
       reason"

definition evacuate :: "env \<Rightarrow> response + string list" where
  "evacuate e =
     (case move_answer e of
        ProxyUnreachable \<Rightarrow> Inl (Response 500 ProxyContactFailed)
      | ProxyAnswer code body \<Rightarrow>
          if code \<noteq> 200 then Inl (Response 500 (ProxyError code))
          else (case body of
                  BadJSON \<Rightarrow> Inl (Response 500 InvalidProxyResponse)
                | Parsed ok movedPlayers \<Rightarrow>
                    if \<not> ok then Inl (Response 500 ProxyReportedFailure)
                    else Inr movedPlayers))"

text \<open>Part C: the request that brings the players back, whose failure is only logged.\<close>

definition move_back :: "string list \<Rightarrow> string \<Rightarrow> effect list" where
  "move_back movedPlayers name =
     (if length movedPlayers > 0 then [Sleep1s, ProxyMoveListTo movedPlayers name] else [])"


definition saveWorldHandler :: "env \<Rightarrow> string \<Rightarrow> im_state \<Rightarrow> response \<times> effect list \<times> im_state" where
  "saveWorldHandler e name s =
     (if name = [] then (Response 400 MissingName, [], s)
      else
        case evacuate e of
          Inl resp \<Rightarrow> (resp, [evacuation name None], s)
        | Inr movedPlayers \<Rightarrow>
            (case map_of (serverMap s) name of
               None \<Rightarrow> (Response 404 (NotFound name), [evacuation name None], s)
             | Some None \<Rightarrow> (Response 400 (AlreadyStopped name), [evacuation name None], s)
             | Some (Some srv) \<Rightarrow>
                 let s1 = s\<lparr>objs := (objs s)[srv := (objs s ! srv)\<lparr>Status := ''restarting''\<rparr>]\<rparr>;
                     port = Port (objs s1 ! srv);
                     dir = server_dir port;
                     worldDir = dir @ ''/world''
                 in
                 if \<not> dir_exists e
                   then (Response 400 (WorldDirMissing worldDir), [evacuation name None], s1)
                 else
                   (case stopServerHold e name srv s1 of
                      (Returned (Some err), fx, s2) \<Rightarrow>
                        (Response 500 (HeldError err), evacuation name None # fx, s2)
                    | (Waits, fx, s2) \<Rightarrow> (Blocked, evacuation name None # fx, s2)
                    | (WaitsHoldingMu, fx, s2) \<Rightarrow>
                        (BlockedHoldingMu, evacuation name None # fx, s2)
                    | (Returned None, fx, s2) \<Rightarrow>
                        if \<not> tmp_ok e
                          then (Response 500 TempZipFailed, evacuation name None # fx, s2)
                        else
                          (case zipDir (world_dir e) (zip_create_ok e) world_blacklist of
                             Inl err \<Rightarrow> (Response 500 ZipFailed, evacuation name None # fx, s2)
                           | Inr entries \<Rightarrow>
                               let fx1 = evacuation name None # fx @ [ZipWorld worldDir entries] in
                               if token = [] \<or> repoWorlds = []
                                 then (Response 500 TokenNotSet, fx1, s2)
                               else
                                 let destPath = path_Base (name @ ''.zip'');
                                     fx2 = fx1 @ [Upload repoWorlds destPath]
                                 in
                                 if \<not> upload_ok e then (Response 500 UploadFailed, fx2, s2)
                                 else
                                   (case startHeldServer e name port dir s2 of
                                      (Returned (Some err), fx3, s3) \<Rightarrow>
                                        (Response 500 (HeldError err), fx2 @ fx3, s3)
                                    | (Waits, fx3, s3) \<Rightarrow> (Blocked, fx2 @ fx3, s3)
                                    | (WaitsHoldingMu, fx3, s3) \<Rightarrow>
                                        (BlockedHoldingMu, fx2 @ fx3, s3)
                                    | (Returned None, fx3, s3) \<Rightarrow>
                                        (Response 200 (SavedAndRestarted destPath port),
                                         fx2 @ fx3 @ move_back movedPlayers name, s3))))))"

definition restartWorldHandler :: "env \<Rightarrow> string \<Rightarrow> im_state \<Rightarrow> response \<times> effect list \<times> im_state" where
  "restartWorldHandler e name s =
     (if name = [] then (Response 400 MissingName, [], s)
      else
        let ev = evacuation name (Some ''Server is restarting..'') in
        case evacuate e of
          Inl resp \<Rightarrow> (resp, [ev], s)
        | Inr movedPlayers \<Rightarrow>
            (case map_of (serverMap s) name of
               None \<Rightarrow> (Response 404 (NotFound name), [ev], s)
             | Some None \<Rightarrow> (Response 400 (AlreadyStopped name), [ev], s)
             | Some (Some srv) \<Rightarrow>
                 let s1 = s\<lparr>objs := (objs s)[srv := (objs s ! srv)\<lparr>Status := ''restarting''\<rparr>]\<rparr>;
                     port = Port (objs s1 ! srv);
                     dir = server_dir port
                 in
                 if \<not> dir_exists e
                   then (Response 400 (ServerDirMissing dir), [ev], s1)
                 else
                   (case stopServerHold e name srv s1 of
                      (Returned (Some err), fx, s2) \<Rightarrow>
                        (Response 500 (HeldError err), ev # fx, s2)
                    | (Waits, fx, s2) \<Rightarrow> (Blocked, ev # fx, s2)
                    | (WaitsHoldingMu, fx, s2) \<Rightarrow> (BlockedHoldingMu, ev # fx, s2)
                    | (Returned None, fx, s2) \<Rightarrow>
                        (case startHeldServer e name port dir s2 of
                           (Returned (Some err), fx3, s3) \<Rightarrow>
                             (Response 500 (HeldError err), ev # fx @ fx3, s3)
                         | (Waits, fx3, s3) \<Rightarrow> (Blocked, ev # fx @ fx3, s3)
                         | (WaitsHoldingMu, fx3, s3) \<Rightarrow>
                             (BlockedHoldingMu, ev # fx @ fx3, s3)
                         | (Returned None, fx3, s3) \<Rightarrow>
                             (Response 200 (Restarted name port),
                              ev # fx @ fx3 @ move_back movedPlayers name, s3)))))"

text \<open>
  \<^verbatim>\<open>systemHandler\<close>: the instances it reports, and the response, given the CPU and
  memory readings (\<open>None\<close> when \<^verbatim>\<open>gopsutil\<close> fails).
\<close>

definition system_instance :: "im_state \<Rightarrow> string \<times> nat option \<Rightarrow> Instance" where
  "system_instance st entry =
     (case entry of
        (name, Some s) \<Rightarrow>
          \<lparr>Instance.Name = name, Players = [], PlayerCount = 0, TPS = 0,
           Instance.Port = Port (objs st ! s), Instance.Status = Status (objs st ! s)\<rparr>
      | (name, None) \<Rightarrow>
          \<lparr>Instance.Name = name, Players = [], PlayerCount = 0, TPS = 0,
           Instance.Port = 0, Instance.Status = ''running''\<rparr>)"

datatype system_error = CPUError | MemoryError

definition systemHandler ::
    "real option \<Rightarrow> (64 word \<times> 64 word) option \<Rightarrow> im_state
      \<Rightarrow> system_error + (real \<times> 64 word \<times> 64 word \<times> Instance list)" where
  "systemHandler cpuPercent vmStat st =
     (case cpuPercent of
        None \<Rightarrow> Inl CPUError
      | Some c \<Rightarrow>
          (case vmStat of
             None \<Rightarrow> Inl MemoryError
           | Some (usedBytes, totalBytes) \<Rightarrow>
               Inr (c, usedBytes div 1024 div 1024, totalBytes div 1024 div 1024,
                    map (system_instance st) (serverMap st))))"

text \<open>
  A live child that has emitted the readiness line exists for a name: the name's record
  points to a running process whose readiness line the scanner has seen.
\<close>

definition live_ready :: "im_state \<Rightarrow> string \<Rightarrow> bool" where
  "live_ready st name =
     (case map_of (serverMap st) name of
        Some (Some s) \<Rightarrow>
          (case Cmd (objs st ! s) of
             Some pid \<Rightarrow> life (procs st ! pid) = Running \<and> ready (procs st ! pid)
           | None \<Rightarrow> False)
      | _ \<Rightarrow> False)"

text \<open>
  Requests to the instance manager, served one after the other, and what holds of the
  state between them: the pool is in heap order, every released port and every port of a
  \<^verbatim>\<open>Server\<close> object lies below the watermark, and the maps point to objects of the store.
  A handler that panics or waits for \<^verbatim>\<open>serversMux\<close> leaves the state it has reached,
  and the next request is served from there. No handler waits while it holds \<^verbatim>\<open>mu\<close>
  (lemma \<open>mu_never_held\<close> below).
\<close>

datatype im_request =
    StartServer_req env string
  | StopServer_req string
  | SaveInstance_req env string
  | RestartInstance_req env string

fun serve :: "im_request \<Rightarrow> im_state \<Rightarrow> im_state" where
  "serve (StartServer_req e name) s = snd (snd (startServerHandler e name s))"
| "serve (StopServer_req name) s = snd (snd (stopServerHandler name s))"
| "serve (SaveInstance_req e name) s = snd (snd (saveWorldHandler e name s))"
| "serve (RestartInstance_req e name) s = snd (snd (restartWorldHandler e name s))"

definition objs_inv :: "im_state \<Rightarrow> bool" where
  "objs_inv s =
     ((\<forall>srv \<in> set (objs s). ID srv < nextPort s \<and> Port srv < nextPort s)
      \<and> (\<forall>kr \<in> set (servers s). snd kr < length (objs s))
      \<and> (\<forall>nr \<in> set (serverMap s). \<forall>r. snd nr = Some r \<longrightarrow> r < length (objs s)))"

definition im_inv :: "im_state \<Rightarrow> bool" where
  "im_inv s = (pool_inv s \<and> objs_inv s)"

text \<open>
  The states and the environment of the scenarios used below: the instance \<^verbatim>\<open>alpha\<close>
  started on a fresh instance manager, with a child that prints its readiness line after
  20 s; a proxy that moves the players \<^verbatim>\<open>p1\<close> and \<^verbatim>\<open>p2\<close>; a world directory with a
  level file and player data; every step outside the process succeeding.
\<close>

definition good_env :: env where
  "good_env =
     \<lparr>setup_ok = True, pipe_ok = True, start_ok = True,
      child_output = [(1000, ''Starting minecraft server''),
                      (20000, ''[INFO]: Done (12.3s)! For help, type help'')],
      child_eof = None, exits_in_time = True,
      move_answer = ProxyAnswer 200 (Parsed True [''p1'', ''p2'']),
      dir_exists = True, tmp_ok = True, zip_create_ok = True,
      world_dir = Dir ''world'' True
        [File ''level.dat'' True, Dir ''playerdata'' True [File ''a.dat'' True]],
      upload_ok = True, copy_ok = True\<rparr>"

definition alpha_running :: im_state where
  "alpha_running =
     \<lparr>nextPort = 3001, available = [],
      objs = [\<lparr>ID = 3000, Port = 3000, Cmd = Some 0, Status = ''running'',
               cleanupOnce = False\<rparr>],
      servers = [(3000, 0)], serverMap = [(''alpha'', Some 0)],
      procs = [\<lparr>life = Running, ready = True\<rparr>], serversMux_locked = False\<rparr>"

text \<open>The state that \<^verbatim>\<open>stopServerHold\<close> leaves: the name is kept with a \<^verbatim>\<open>nil\<close> record.\<close>

definition alpha_held :: im_state where
  "alpha_held =
     \<lparr>nextPort = 3001, available = [],
      objs = [\<lparr>ID = 3000, Port = 3000, Cmd = Some 0, Status = ''restarting'',
               cleanupOnce = False\<rparr>],
      servers = [], serverMap = [(''alpha'', None)],
      procs = [\<lparr>life = Reaped, ready = True\<rparr>], serversMux_locked = False\<rparr>"

text \<open>
  The state that a save request leaves when the world directory is missing: the record
  is marked \<^verbatim>\<open>restarting\<close> and its child still runs.
\<close>

definition alpha_restarting :: im_state where
  "alpha_restarting =
     \<lparr>nextPort = 3001, available = [],
      objs = [\<lparr>ID = 3000, Port = 3000, Cmd = Some 0, Status = ''restarting'',
               cleanupOnce = False\<rparr>],
      servers = [(3000, 0)], serverMap = [(''alpha'', Some 0)],
      procs = [\<lparr>life = Running, ready = True\<rparr>], serversMux_locked = False\<rparr>"

section \<open>Properties of the snapshot archive\<close>

lemma split_on_nonempty: "split_on c s \<noteq> []"
  by (induction s) (auto split: list.splits)

lemma split_on_append:
  "split_on c (a @ c # b) = split_on c a @ split_on c b"
proof (induction a)
  case Nil
  show ?case by simp
next
  case (Cons x a)
  obtain w ws where ws: "split_on c a = w # ws"
    using split_on_nonempty [of c a] by (cases "split_on c a") auto
  show ?case using Cons ws by simp
qed

lemma split_on_no_sep: "c \<notin> set n \<Longrightarrow> split_on c n = [n]"
  by (induction n) auto

lemma segments_dir_entry: "segments (p @ ''/'') = segments p @ [[]]"
  using split_on_append [of "CHR ''/''" p "[]"] by (simp add: segments_def)

lemma segments_child:
  "CHR ''/'' \<notin> set n \<Longrightarrow> n \<in> set (segments (child_path rel n))"
  using split_on_append [of "CHR ''/''" rel n]
  by (simp add: segments_def child_path_def split_on_no_sep)

lemma zip_visit_ok:
  assumes "[] \<notin> set bl" and "zip_visit bl rel d r err = (x, es)"
  shows "pruned_ok bl es"
proof -
  have "list_all (\<lambda>p. p \<notin> set bl) (segments (rel @ ''/''))"
    if "\<not> list_ex (\<lambda>p. p \<in> set bl) (segments rel)"
    using that assms(1) by (simp add: segments_dir_entry list_ex_iff list_all_iff)
  moreover have "list_all (\<lambda>p. p \<notin> set bl) (segments rel)"
    if "\<not> list_ex (\<lambda>p. p \<in> set bl) (segments rel)"
    using that by (simp add: list_ex_iff list_all_iff)
  ultimately show ?thesis
    using assms(2) unfolding zip_visit_def pruned_ok_def segments_def [symmetric]
    by (auto split: if_splits)
qed

lemma pruned_ok_append: "pruned_ok bl (xs @ ys) = (pruned_ok bl xs \<and> pruned_ok bl ys)"
  by (simp add: pruned_ok_def)

lemma walk_ok:
  "[] \<notin> set bl \<Longrightarrow> pruned_ok bl (fst (walk bl rel t))"
  "[] \<notin> set bl \<Longrightarrow> pruned_ok bl (fst (walk_children bl rel ts))"
proof (induction bl rel t and bl rel ts rule: walk_walk_children.induct)
  case (1 bl rel n ok)
  then show ?case
    by (auto split: prod.splits dest: zip_visit_ok)
next
  case (2 bl rel n ok cs)
  then show ?case
    by (auto split: prod.splits walk_ret.splits simp: pruned_ok_append dest: zip_visit_ok)
next
  case (3 bl rel n)
  then show ?case
    by (auto split: prod.splits dest: zip_visit_ok)
next
  case (4 bl rel)
  then show ?case by (simp add: pruned_ok_def)
next
  case (5 bl rel c cs)
  then show ?case
    by (auto split: prod.splits simp: pruned_ok_append)
qed

lemma walk_pruned:
  assumes "rel \<noteq> ''.''" "list_ex (\<lambda>p. p \<in> set bl) (segments rel)"
  shows "walk bl rel (Dir n True cs) = ([], False)" "walk bl rel (Dir n False cs) = ([], True)"
    "walk bl rel (File n ok) = ([], False)"
  using assms by (simp_all add: zip_visit_def segments_def)

text \<open>
  Claim C9. In every archive that \<^verbatim>\<open>zipDir\<close> produces with the blacklist of the save
  handler, no entry name has a segment equal to \<^verbatim>\<open>advancements\<close>, \<^verbatim>\<open>playerdata\<close> or
  \<^verbatim>\<open>stats\<close>. A file of such a name, or below such a segment, is skipped: it adds no
  entry and the walk goes on. A directory of such a name, or below such a segment, adds no
  entry and none of its contents is visited: the walk goes on past it when its listing
  can be read, and stops with the error of the listing, so that no archive is produced,
  when it cannot.
\<close>

theorem zipDir_excludes:
  "(zipDir world create_ok world_blacklist = Inr es \<longrightarrow>
      (\<forall>e \<in> set es. \<forall>p \<in> set (segments e).
          p \<noteq> ''advancements'' \<and> p \<noteq> ''playerdata'' \<and> p \<noteq> ''stats''))
   \<and> (n \<in> set world_blacklist \<longrightarrow>
        walk world_blacklist (child_path rel n) (File n ok) = ([], False)
      \<and> walk world_blacklist (child_path rel n) (Dir n True cs) = ([], False)
      \<and> walk world_blacklist (child_path rel n) (Dir n False cs) = ([], True))
   \<and> (rel \<noteq> ''.'' \<and> (\<exists>p \<in> set (segments rel). p \<in> set world_blacklist) \<longrightarrow>
        walk world_blacklist rel (File n ok) = ([], False)
      \<and> walk world_blacklist rel (Dir n True cs) = ([], False)
      \<and> walk world_blacklist rel (Dir n False cs) = ([], True))"
proof (intro conjI impI)
  assume z: "zipDir world create_ok world_blacklist = Inr es"
  have nb: "[] \<notin> set world_blacklist"
    by (simp add: world_blacklist_def)
  have "es = fst (walk world_blacklist ''.'' world)"
    using z by (auto simp: zipDir_def split: if_splits prod.splits bool.splits)
  then have "pruned_ok world_blacklist es"
    using walk_ok(1) [OF nb] by simp
  then show "\<forall>e \<in> set es. \<forall>p \<in> set (segments e).
          p \<noteq> ''advancements'' \<and> p \<noteq> ''playerdata'' \<and> p \<noteq> ''stats''"
    by (auto simp: pruned_ok_def list_all_iff world_blacklist_def)
next
  assume n: "n \<in> set world_blacklist"
  then have sl: "CHR ''/'' \<notin> set n" and nd: "n \<noteq> ''.''"
    by (auto simp: world_blacklist_def)
  have ne: "child_path rel n \<noteq> ''.''"
    using nd by (cases rel) (auto simp: child_path_def)
  have ex: "list_ex (\<lambda>p. p \<in> set world_blacklist) (segments (child_path rel n))"
    using segments_child [OF sl, of rel] n by (auto simp: list_ex_iff)
  show "walk world_blacklist (child_path rel n) (File n ok) = ([], False)"
    using walk_pruned(3) [OF ne ex] .
  show "walk world_blacklist (child_path rel n) (Dir n True cs) = ([], False)"
    using walk_pruned(1) [OF ne ex] .
  show "walk world_blacklist (child_path rel n) (Dir n False cs) = ([], True)"
    using walk_pruned(2) [OF ne ex] .
next
  assume a: "rel \<noteq> ''.'' \<and> (\<exists>p \<in> set (segments rel). p \<in> set world_blacklist)"
  then have ex: "list_ex (\<lambda>p. p \<in> set world_blacklist) (segments rel)"
    by (auto simp: list_ex_iff)
  show "walk world_blacklist rel (File n ok) = ([], False)"
    using walk_pruned(3) [OF _ ex] a by simp
  show "walk world_blacklist rel (Dir n True cs) = ([], False)"
    using walk_pruned(1) [OF _ ex] a by simp
  show "walk world_blacklist rel (Dir n False cs) = ([], True)"
    using walk_pruned(2) [OF _ ex] a by simp
qed

text \<open>
  An unreadable directory fails the archive whether it is blacklisted or not, and leaves no
  entry of its own.
\<close>

lemma unreadable_dir_fails:
  "walk bl rel (Dir n False cs) = ([], True)"
  "zipDir (Dir w True [Dir n False cs]) True bl = Inl ZipWalkFailed"
  by (simp_all add: zip_visit_def zipDir_def)

theorem zipDir_excludes_witness:
  "zipDir (Dir ''world'' True
       [Dir ''data'' True [],
        File ''level.dat'' True,
        Dir ''playerdata'' True [File ''a.dat'' True],
        Dir ''region'' True [File ''r.0.0.mca'' True, File ''stats'' True]]) True world_blacklist
     = Inr [''data/'', ''level.dat'', ''region/'', ''region/r.0.0.mca'']
   \<and> ''stats'' \<notin> set (segments ''region/r.0.0.mca'')
   \<and> walk world_blacklist ''region/stats'' (Dir ''stats'' True [File ''x'' True]) = ([], False)
   \<and> walk world_blacklist ''region/stats'' (Dir ''stats'' False [File ''x'' True]) = ([], True)
   \<and> walk world_blacklist ''stats/x'' (File ''x'' True) = ([], False)"
proof -
  let ?w = "Dir ''world'' True
       [Dir ''data'' True [],
        File ''level.dat'' True,
        Dir ''playerdata'' True [File ''a.dat'' True],
        Dir ''region'' True [File ''r.0.0.mca'' True, File ''stats'' True]]"
  let ?es = "[''data/'', ''level.dat'', ''region/'', ''region/r.0.0.mca'']"
  have z: "zipDir ?w True world_blacklist = Inr ?es"
    by (simp add: zipDir_def world_blacklist_def zip_visit_def child_path_def)
  have b: "''stats'' \<in> set world_blacklist"
    by (simp add: world_blacklist_def)
  have c: "child_path ''region'' ''stats'' = ''region/stats''"
    by (simp add: child_path_def)
  have s: "''stats/x'' \<noteq> ''.'' \<and> (\<exists>p \<in> set (segments ''stats/x''). p \<in> set world_blacklist)"
    by (simp add: segments_def world_blacklist_def)
  note t1 = zipDir_excludes [of ?w True ?es "''stats''" "''region''" True "[File ''x'' True]"]
  note t2 = zipDir_excludes [of ?w True ?es "''x''" "''stats/x''" True "[]"]
  from t1 z b c have "''stats'' \<notin> set (segments ''region/r.0.0.mca'')
      \<and> walk world_blacklist ''region/stats'' (Dir ''stats'' True [File ''x'' True]) = ([], False)
      \<and> walk world_blacklist ''region/stats'' (Dir ''stats'' False [File ''x'' True]) = ([], True)"
    by auto
  moreover from t2 s have "walk world_blacklist ''stats/x'' (File ''x'' True) = ([], False)"
    by blast
  ultimately show ?thesis using z by simp
qed

section \<open>Properties of the port pool\<close>

lemma heap_root_min: "is_heap h \<Longrightarrow> k < length h \<Longrightarrow> h ! 0 \<le> h ! k"
proof (induction k rule: less_induct)
  case (less k)
  show ?case
  proof (cases "k = 0")
    case True then show ?thesis by simp
  next
    case False
    then have p: "(k - 1) div 2 < k" by arith
    have "h ! 0 \<le> h ! ((k - 1) div 2)"
      using less.IH [OF p] less.prems by simp
    moreover have "h ! ((k - 1) div 2) \<le> h ! k"
      using less.prems False by (simp add: is_heap_def)
    ultimately show ?thesis by simp
  qed
qed

lemma Swap_length [simp]: "length (Swap h i j) = length h"
  by (simp add: Swap_def)

lemma Swap_mset: "i < length h \<Longrightarrow> j < length h \<Longrightarrow> mset (Swap h i j) = mset h"
  by (simp add: Swap_def mset_swap)

lemma Swap_nth: "i < length h \<Longrightarrow> j < length h \<Longrightarrow> k < length h \<Longrightarrow>
  Swap h i j ! k = (if k = j then h ! i else if k = i then h ! j else h ! k)"
  by (auto simp: Swap_def nth_list_update)

lemma up_inv_step:
  assumes inv: "up_inv h j" and j: "j < length h" and i: "i = (j - 1) div 2" and ne: "i \<noteq> j"
    and lt: "h ! j < h ! i"
  shows "up_inv (Swap h i j) i"
proof -
  have j0: "0 < j" and ij: "i < j" using i ne by arith+
  have il: "i < length h" using ij j by simp
  have A: "h ! ((k - 1) div 2) \<le> h ! k" if "k < length h" "0 < k" "k \<noteq> j" for k
    using inv that by (simp add: up_inv_def)
  have B: "h ! i \<le> h ! k" if "k < length h" "0 < k" "(k - 1) div 2 = j" for k
    using inv that j0 i by (simp add: up_inv_def)
  have first: "Swap h i j ! ((k - 1) div 2) \<le> Swap h i j ! k"
    if k: "k < length h" "0 < k" "k \<noteq> i" for k
  proof -
    have pk: "(k - 1) div 2 < length h" "(k - 1) div 2 < k" using k by arith+
    show ?thesis
    proof (cases "k = j")
      case True
      then show ?thesis using lt i il j ne by (simp add: Swap_nth)
    next
      case False
      consider "(k - 1) div 2 = i" | "(k - 1) div 2 = j" | "(k - 1) div 2 \<noteq> i" "(k - 1) div 2 \<noteq> j"
        by blast
      then show ?thesis
      proof cases
        case 1
        then show ?thesis using A [OF k(1,2) False] lt k False il j ne
          by (simp add: Swap_nth)
      next
        case 2
        then show ?thesis using B [OF k(1,2) 2] k False il j ne
          by (simp add: Swap_nth)
      next
        case 3
        then show ?thesis using A [OF k(1,2) False] k False il j pk
          by (simp add: Swap_nth)
      qed
    qed
  qed
  have second: "Swap h i j ! ((i - 1) div 2) \<le> Swap h i j ! k"
    if k: "k < length h" "0 < k" "0 < i" "(k - 1) div 2 = i" for k
  proof -
    have pi: "(i - 1) div 2 < i" using k(3) by arith
    then have pil: "(i - 1) div 2 < length h" "(i - 1) div 2 \<noteq> i" "(i - 1) div 2 \<noteq> j"
      using il ij by simp_all
    have ki: "k \<noteq> i" using k(2,4) by arith
    have hi: "h ! ((i - 1) div 2) \<le> h ! i"
      using A [OF il k(3)] ij by simp
    show ?thesis
    proof (cases "k = j")
      case True
      then show ?thesis using hi pil il j by (simp add: Swap_nth)
    next
      case False
      then show ?thesis using hi A [OF k(1,2) False] k(4) ki pil il j k(1)
        by (simp add: Swap_nth)
    qed
  qed
  show ?thesis
    unfolding up_inv_def using first second by simp
qed

lemma up_correct:
  "j < length h \<Longrightarrow> up_inv h j \<Longrightarrow> is_heap (up h j) \<and> mset (up h j) = mset h"
proof (induction h j rule: up.induct)
  case (1 h j)
  let ?i = "(j - 1) div 2"
  show ?case
  proof (cases "?i = j \<or> \<not> Less h j ?i")
    case True
    have "is_heap h"
      unfolding is_heap_def
    proof (intro allI impI)
      fix k assume k: "k < length h" "0 < k"
      show "h ! ((k - 1) div 2) \<le> h ! k"
      proof (cases "k = j")
        case False
        then show ?thesis using "1.prems"(2) k by (simp add: up_inv_def)
      next
        case kj: True
        then have "?i \<noteq> j" using k(2) by arith
        then show ?thesis using True kj by (simp add: Less_def)
      qed
    qed
    moreover have "up h j = h"
      using True by (subst up.simps) (simp add: Let_def)
    ultimately show ?thesis by simp
  next
    case False
    then have ne: "?i \<noteq> j" and lt: "h ! j < h ! ?i" by (simp_all add: Less_def)
    have il: "?i < length h" using "1.prems"(1) by arith
    have inv': "up_inv (Swap h ?i j) ?i"
      using up_inv_step [OF "1.prems"(2,1) refl ne lt] .
    have "is_heap (up (Swap h ?i j) ?i) \<and> mset (up (Swap h ?i j) ?i) = mset (Swap h ?i j)"
      using "1.IH" [OF refl False _ inv'] il by simp
    moreover have "up h j = up (Swap h ?i j) ?i"
      using False by (subst up.simps) (simp add: Let_def)
    ultimately show ?thesis using Swap_mset [OF il "1.prems"(1)] by simp
  qed
qed

lemma heap_Push_correct:
  assumes "is_heap h"
  shows "is_heap (heap_Push h x) \<and> mset (heap_Push h x) = mset h + {#x#}"
proof -
  have "up_inv (h @ [x]) (length h)"
    unfolding up_inv_def
  proof (intro conjI allI impI)
    fix k assume "k < length (h @ [x])" "0 < k \<and> k \<noteq> length h"
    then have k: "k < length h" "0 < k" by simp_all
    then have "(k - 1) div 2 < length h" by arith
    then show "(h @ [x]) ! ((k - 1) div 2) \<le> (h @ [x]) ! k"
      using assms k by (simp add: nth_append is_heap_def)
  next
    fix k assume "k < length (h @ [x])" "0 < k \<and> 0 < length h \<and> (k - 1) div 2 = length h"
    then have False by simp arith
    then show "(h @ [x]) ! ((length h - 1) div 2) \<le> (h @ [x]) ! k" ..
  qed
  then show ?thesis
    using up_correct [of "length h" "h @ [x]"]
    by (simp add: heap_Push_def Push_def Len_def)
qed

lemma down_inv_step:
  assumes inv: "down_inv h i n" and n: "n \<le> length h" and j1: "2 * i + 1 < n"
    and j: "j = (if 2 * i + 1 + 1 < n \<and> h ! (2 * i + 1 + 1) < h ! (2 * i + 1) then 2 * i + 1 + 1 else 2 * i + 1)"
    and lt: "h ! j < h ! i"
  shows "down_inv (Swap h i j) j n"
proof -
  have jn: "j < n" and ij: "i < j" and pj: "(j - 1) div 2 = i" using j j1 by (auto split: if_splits)
  have jl: "j < length h" and il: "i < length h" using jn ij n by simp_all
  have A: "h ! ((k - 1) div 2) \<le> h ! k" if "k < n" "0 < k" "(k - 1) div 2 \<noteq> i" for k
    using inv that by (simp add: down_inv_def)
  have B: "h ! ((i - 1) div 2) \<le> h ! k" if "k < n" "0 < k" "0 < i" "(k - 1) div 2 = i" for k
    using inv that by (simp add: down_inv_def)
  have small: "h ! j \<le> h ! k" if "k < n" "0 < k" "(k - 1) div 2 = i" for k
  proof -
    have "k = 2 * i + 1 \<or> k = 2 * i + 1 + 1" using that by arith
    then show ?thesis using j that by (auto split: if_splits)
  qed
  have first: "Swap h i j ! ((k - 1) div 2) \<le> Swap h i j ! k"
    if k: "k < n" "0 < k" "(k - 1) div 2 \<noteq> j" for k
  proof -
    have kl: "k < length h" and pk: "(k - 1) div 2 < length h" "(k - 1) div 2 < k"
      using k n by arith+
    show ?thesis
    proof (cases "(k - 1) div 2 = i")
      case True
      then have ki: "k \<noteq> i" using pk by simp
      show ?thesis
      proof (cases "k = j")
        case kj: True
        then show ?thesis using lt True il jl ij by (simp add: Swap_nth)
      next
        case False
        then show ?thesis using small [OF k(1,2) True] True ki il jl kl ij
          by (simp add: Swap_nth)
      qed
    next
      case False
      have kj: "k \<noteq> j" using False pj by auto
      show ?thesis
      proof (cases "k = i")
        case True
        then have i0: "0 < i" using k by simp
        have "(i - 1) div 2 < i" using i0 by arith
        then have "(i - 1) div 2 \<noteq> i" "(i - 1) div 2 \<noteq> j" "(i - 1) div 2 < length h"
          using ij il by simp_all
        then show ?thesis using B [OF jn _ i0 pj] ij True il jl
          by (simp add: Swap_nth)
      next
        case ki: False
        then show ?thesis using A [OF k(1,2) False] False k(3) kj il jl kl pk
          by (simp add: Swap_nth)
      qed
    qed
  qed
  have second: "Swap h i j ! ((j - 1) div 2) \<le> Swap h i j ! k"
    if k: "k < n" "0 < k" "(k - 1) div 2 = j" for k
  proof -
    have kl: "k < length h" using k n by simp
    have kj: "k \<noteq> j" "k \<noteq> i" using k ij by arith+
    have "h ! j \<le> h ! k" using A [OF k(1,2)] k(3) ij by simp
    then show ?thesis using pj kj il jl kl ij by (simp add: Swap_nth)
  qed
  show ?thesis
    unfolding down_inv_def using first second by simp
qed

lemma down_unfold:
  "2 * i + 1 < n \<Longrightarrow> j = (if 2 * i + 1 + 1 < n \<and> Less h (2 * i + 1 + 1) (2 * i + 1) then 2 * i + 1 + 1 else 2 * i + 1)
    \<Longrightarrow> down h i n = (if \<not> Less h j i then h else down (Swap h i j) j n)"
  by (subst down.simps) (simp add: Let_def)

lemma down_correct:
  "n \<le> length h \<Longrightarrow> down_inv h i n \<Longrightarrow>
     heap_upto (down h i n) n \<and> mset (down h i n) = mset h \<and> length (down h i n) = length h
     \<and> (\<forall>k. n \<le> k \<longrightarrow> down h i n ! k = h ! k)"
proof (induction h i n rule: down.induct)
  case (1 h i n)
  let ?j1 = "2 * i + 1"
  let ?j = "if ?j1 + 1 < n \<and> Less h (?j1 + 1) ?j1 then ?j1 + 1 else ?j1"
  have A: "h ! ((k - 1) div 2) \<le> h ! k" if "k < n" "0 < k" "(k - 1) div 2 \<noteq> i" for k
    using "1.prems"(2) that by (simp add: down_inv_def)
  show ?case
  proof (cases "?j1 \<ge> n")
    case True
    have "heap_upto h n"
      unfolding heap_upto_def
    proof (intro allI impI)
      fix k assume k: "k < n" "0 < k"
      then have "(k - 1) div 2 \<noteq> i" using True by arith
      then show "h ! ((k - 1) div 2) \<le> h ! k" using A k by simp
    qed
    moreover have "down h i n = h"
      using True by (subst down.simps) (simp add: Let_def)
    ultimately show ?thesis by simp
  next
    case False
    then have j1: "?j1 < n" by simp
    show ?thesis
    proof (cases "Less h ?j i")
      case nl: False
      have "heap_upto h n"
        unfolding heap_upto_def
      proof (intro allI impI)
        fix k assume k: "k < n" "0 < k"
        show "h ! ((k - 1) div 2) \<le> h ! k"
        proof (cases "(k - 1) div 2 = i")
          case pk: False
          then show ?thesis using A k by simp
        next
          case True
          then have "k = ?j1 \<or> k = ?j1 + 1" using k by arith
          then show ?thesis using nl True k by (auto simp: Less_def split: if_splits)
        qed
      qed
      moreover have "down h i n = h"
        using down_unfold [OF j1 refl, of h] nl by metis
      ultimately show ?thesis by simp
    next
      case lt: True
      have jn: "?j < n" and ij: "i < ?j" using j1 by (auto split: if_splits)
      have jl: "?j < length h" "i < length h" using jn ij "1.prems"(1) by simp_all
      have inv': "down_inv (Swap h i ?j) ?j n"
        using down_inv_step [OF "1.prems"(2,1) j1, of ?j] lt by (simp add: Less_def)
      have eq: "down h i n = down (Swap h i ?j) ?j n"
        using down_unfold [OF j1 refl, of h] lt by metis
      have IH: "heap_upto (down (Swap h i ?j) ?j n) n
          \<and> mset (down (Swap h i ?j) ?j n) = mset (Swap h i ?j)
          \<and> length (down (Swap h i ?j) ?j n) = length (Swap h i ?j)
          \<and> (\<forall>k. n \<le> k \<longrightarrow> down (Swap h i ?j) ?j n ! k = Swap h i ?j ! k)"
        using "1.IH" [OF refl _ refl _ _ inv'] False lt "1.prems"(1) by simp
      have out: "Swap h i ?j ! k = h ! k" if "n \<le> k" for k
        using that jn ij by (simp add: Swap_def)
      show ?thesis
        using IH eq Swap_mset [OF jl(2) jl(1)] out by simp
    qed
  qed
qed

lemma heap_Pop_correct:
  assumes hp: "is_heap h" and ne: "h \<noteq> []"
  shows "\<exists>h'. heap_Pop h = Some (Min (set h), h') \<and> is_heap h'
           \<and> mset h = add_mset (Min (set h)) (mset h')"
proof -
  let ?n = "length h - 1"
  let ?h1 = "Swap h 0 ?n"
  let ?h2 = "down ?h1 0 ?n"
  have n: "?n < length h" using ne by (cases h) simp_all
  have inv: "down_inv ?h1 0 ?n"
    unfolding down_inv_def
  proof (intro conjI allI impI)
    fix k assume "k < ?n" "0 < k \<and> (k - 1) div 2 \<noteq> 0"
    then have k: "k < ?n" "0 < k" "(k - 1) div 2 \<noteq> 0" by simp_all
    then have p: "(k - 1) div 2 < ?n" by arith
    have kl: "k < length h" "(k - 1) div 2 < length h" "0 < length h"
      using k p by arith+
    have e1: "?h1 ! k = h ! k"
      using k n kl by (simp add: Swap_nth)
    have e2: "?h1 ! ((k - 1) div 2) = h ! ((k - 1) div 2)"
      using p k(3) n kl by (simp add: Swap_nth)
    show "?h1 ! ((k - 1) div 2) \<le> ?h1 ! k"
      unfolding e1 e2 using hp k n by (simp add: is_heap_def)
  qed simp
  have d: "heap_upto ?h2 ?n" "mset ?h2 = mset ?h1" "length ?h2 = length h" "?h2 ! ?n = ?h1 ! ?n"
    using down_correct [of ?n ?h1 0] inv by simp_all
  have ne2: "?h2 \<noteq> []" using d(3) ne by auto
  have l0: "0 < length h" using ne by simp
  have sw: "?h1 ! ?n = h ! 0"
    using Swap_nth [OF l0 n n] by simp
  have last: "last ?h2 = h ! 0"
    using d(3,4) ne2 sw by (simp add: last_conv_nth)
  have min: "h ! 0 = Min (set h)"
  proof (rule antisym)
    show "h ! 0 \<le> Min (set h)"
      using heap_root_min [OF hp] ne by (auto simp: in_set_conv_nth)
    show "Min (set h) \<le> h ! 0"
      using ne by (simp add: Min_le)
  qed
  have hb: "is_heap (butlast ?h2)"
    unfolding is_heap_def
  proof (intro allI impI)
    fix k assume k: "k < length (butlast ?h2)" "0 < k"
    then have kn: "k < ?n" using d(3) by simp
    then have "(k - 1) div 2 < ?n" by arith
    then show "butlast ?h2 ! ((k - 1) div 2) \<le> butlast ?h2 ! k"
      using d(1,3) kn k(2) by (simp add: nth_butlast heap_upto_def)
  qed
  have "mset ?h2 = add_mset (last ?h2) (mset (butlast ?h2))"
    using ne2 by (metis append_butlast_last_id mset.simps(2) mset_append union_mset_add_mset_right add.right_neutral mset.simps(1))
  then have ms: "mset h = add_mset (Min (set h)) (mset (butlast ?h2))"
    using d(2) Swap_mset [OF l0 n] last min by simp
  have "heap_Pop h = Some (Min (set h), butlast ?h2)"
    using ne ne2 last min by (simp add: heap_Pop_def Pop_def Len_def Let_def)
  then show ?thesis using hb ms by blast
qed

lemma set_of_mset_add:
  assumes "mset xs = add_mset x (mset ys)"
  shows "set xs = insert x (set ys)"
proof -
  have "set_mset (mset xs) = set_mset (add_mset x (mset ys))"
    using assms by simp
  then show ?thesis by simp
qed

lemma int64_id: "- (2 ^ 63) \<le> x \<Longrightarrow> x < 2 ^ 63 \<Longrightarrow> int64 x = x"
  by (simp add: int64_def)

lemma allocatePort_step:
  assumes "pool_inv s" and "allocatePort s = (p, s')" and "nextPort s + 1 < 2 ^ 63"
  shows "p = lowest_free s \<and> lowest_free s \<le> lowest_free s' \<and> pool_inv s'
         \<and> nextPort s \<le> nextPort s' \<and> nextPort s' \<le> nextPort s + 1"
proof (cases "available s = []")
  case True
  have "int64 (nextPort s + 1) = nextPort s + 1"
    using assms(1,3) by (intro int64_id) (simp_all add: pool_inv_def)
  then show ?thesis using assms True
    by (auto simp: allocatePort_def Len_def lowest_free_def pool_inv_def)
next
  case False
  have hp: "is_heap (available s)" using assms(1) by (simp add: pool_inv_def)
  obtain h' where h': "heap_Pop (available s) = Some (Min (set (available s)), h')"
    "is_heap h'" "mset (available s) = add_mset (Min (set (available s))) (mset h')"
    using heap_Pop_correct [OF hp False] by blast
  have s': "p = Min (set (available s))" "s' = s\<lparr>available := h'\<rparr>"
    using assms(2) False h'(1) by (auto simp: allocatePort_def Len_def)
  have sub: "set h' \<subseteq> set (available s)"
    using set_of_mset_add [OF h'(3)] by auto
  have bound: "\<forall>q \<in> set (available s). q < nextPort s"
    using assms(1) by (simp add: pool_inv_def list_all_iff)
  have inv': "pool_inv s'"
    using h'(2) sub bound s' assms(1) by (auto simp: pool_inv_def list_all_iff)
  have "lowest_free s \<le> lowest_free s'"
  proof (cases "h' = []")
    case True
    then show ?thesis using False bound s' by (auto simp: lowest_free_def intro: less_imp_le)
  next
    case ne: False
    then show ?thesis using False sub s' by (auto simp: lowest_free_def intro: Min_antimono)
  qed
  then show ?thesis using s' inv' False by (simp add: lowest_free_def)
qed

lemma releasePort_inv:
  assumes "pool_inv s" and "p < nextPort s"
  shows "pool_inv (releasePort p s)"
proof (cases "p \<le> 0")
  case True then show ?thesis using assms by (simp add: releasePort_def)
next
  case False
  have "is_heap (heap_Push (available s) p)" "mset (heap_Push (available s) p) = mset (available s) + {#p#}"
    using heap_Push_correct [of "available s" p] assms(1) by (simp_all add: pool_inv_def)
  moreover from this(2) have "set (heap_Push (available s) p) = insert p (set (available s))"
    using set_of_mset_add [of "heap_Push (available s) p" p "available s"] by simp
  ultimately show ?thesis using assms False
    by (simp add: releasePort_def pool_inv_def list_all_iff)
qed

lemma releasePort_heap:
  assumes "is_heap (available s)"
  shows "is_heap (available (releasePort p s))"
  using heap_Push_correct [of "available s" p] assms by (simp add: releasePort_def)

lemma allocatePort_heap:
  assumes "is_heap (available s)"
  shows "is_heap (available (snd (allocatePort s)))"
proof (cases "available s = []")
  case True then show ?thesis using assms by (simp add: allocatePort_def Len_def)
next
  case False
  then show ?thesis using heap_Pop_correct [OF assms False]
    by (auto simp: allocatePort_def Len_def)
qed

lemma run_ops_heap: "is_heap (available s) \<Longrightarrow> is_heap (available (run_ops ops s))"
proof (induction ops arbitrary: s)
  case Nil then show ?case by simp
next
  case (Cons x xs)
  then show ?case by (cases x) (simp_all add: allocatePort_heap releasePort_heap)
qed

lemma releasePort_next: "nextPort (releasePort p s) = nextPort s"
  by (simp add: releasePort_def)

lemma allocatePort_next_bounds:
  assumes "- (2 ^ 63) \<le> nextPort s" and "nextPort s + 1 < 2 ^ 63"
  shows "nextPort s \<le> nextPort (snd (allocatePort s))"
    and "nextPort (snd (allocatePort s)) \<le> nextPort s + 1"
  using assms int64_id [of "nextPort s + 1"]
  by (auto simp: allocatePort_def split: option.splits)

text \<open>
  While the watermark has not reached the largest 64-bit integer it only grows, by at
  most one for each operation.
\<close>

lemma run_ops_next:
  "- (2 ^ 63) \<le> nextPort s \<Longrightarrow> nextPort s + int (length ops) < 2 ^ 63 \<Longrightarrow>
     nextPort s \<le> nextPort (run_ops ops s)
     \<and> nextPort (run_ops ops s) \<le> nextPort s + int (length ops)"
proof (induction ops arbitrary: s)
  case Nil then show ?case by simp
next
  case (Cons x xs)
  have b: "nextPort s \<le> nextPort (run_op x s) \<and> nextPort (run_op x s) \<le> nextPort s + 1"
  proof (cases x)
    case Allocate
    then show ?thesis
      using allocatePort_next_bounds [of s] Cons.prems by simp
  next
    case (Release p)
    then show ?thesis by (simp add: releasePort_next)
  qed
  have "nextPort (run_op x s) \<le> nextPort (run_ops xs (run_op x s))
      \<and> nextPort (run_ops xs (run_op x s)) \<le> nextPort (run_op x s) + int (length xs)"
    using Cons.IH [of "run_op x s"] Cons.prems b by simp
  then show ?case using b by simp
qed

lemma run_ops_inv:
  "pool_inv s \<Longrightarrow> handed_out ops s \<Longrightarrow> nextPort s + int (length ops) < 2 ^ 63 \<Longrightarrow>
     pool_inv (run_ops ops s)"
proof (induction ops arbitrary: s)
  case Nil then show ?case by simp
next
  case (Cons x xs)
  show ?case
  proof (cases x)
    case Allocate
    obtain p s' where a: "allocatePort s = (p, s')" by (cases "allocatePort s")
    have n: "nextPort s + 1 < 2 ^ 63" using Cons.prems(3) by simp
    note st = allocatePort_step [OF Cons.prems(1) a n]
    have "nextPort s' + int (length xs) < 2 ^ 63" using st Cons.prems(3) by simp
    then show ?thesis using Cons.IH [of s'] Cons.prems(2) st Allocate a by simp
  next
    case (Release p)
    have "pool_inv (releasePort p s)"
      using releasePort_inv [of s p] Cons.prems Release by simp
    then show ?thesis using Cons.IH [of "releasePort p s"] Cons.prems Release
      by (simp add: releasePort_next)
  qed
qed

lemma allocations_lower:
  "pool_inv s \<Longrightarrow> nextPort s + int n < 2 ^ 63 \<Longrightarrow> x \<in> set (allocations n s) \<Longrightarrow>
     lowest_free s \<le> x"
proof (induction n arbitrary: s)
  case 0 then show ?case by simp
next
  case (Suc n)
  obtain p s' where a: "allocatePort s = (p, s')" by (cases "allocatePort s")
  have b: "nextPort s + 1 < 2 ^ 63" using Suc.prems(2) by simp
  note st = allocatePort_step [OF Suc.prems(1) a b]
  have b': "nextPort s' + int n < 2 ^ 63" using st Suc.prems(2) by simp
  show ?case
  proof (cases "x = p")
    case True then show ?thesis using st by simp
  next
    case False
    then have "x \<in> set (allocations n s')" using Suc.prems(3) a by simp
    then have "lowest_free s' \<le> x" using Suc.IH [of s'] st b' by blast
    then show ?thesis using st by simp
  qed
qed

lemma allocations_sorted:
  "pool_inv s \<Longrightarrow> nextPort s + int n < 2 ^ 63 \<Longrightarrow> sorted (allocations n s)"
proof (induction n arbitrary: s)
  case 0 then show ?case by simp
next
  case (Suc n)
  obtain p s' where a: "allocatePort s = (p, s')" by (cases "allocatePort s")
  have b: "nextPort s + 1 < 2 ^ 63" using Suc.prems(2) by simp
  note st = allocatePort_step [OF Suc.prems(1) a b]
  have b': "nextPort s' + int n < 2 ^ 63" using st Suc.prems(2) by simp
  have "\<forall>x \<in> set (allocations n s'). p \<le> x"
    using allocations_lower [of s' n] st b' by fastforce
  then show ?case using Suc.IH [of s'] st a b' by simp
qed

lemma init_pool_inv: "pool_inv init_pool"
  by (simp add: pool_inv_def init_pool_def is_heap_def)

text \<open>
  Claim C6. In every state that a sequence of pool operations reaches from the initial
  pool: \<^verbatim>\<open>allocatePort\<close> removes and returns the minimum of the released heap when it
  is not empty, and otherwise returns the watermark and increments it (as a 64-bit
  integer; by one while it has not reached the largest); \<^verbatim>\<open>releasePort p\<close> changes
  nothing for \<open>p \<le> 0\<close> and otherwise adds \<open>p\<close> to the heap. Consequently, when the pool
  is used as its callers use it, every port released being one that had been handed out
  (it lies below the watermark), and the watermark stays within the 64-bit integers,
  successive allocations are non-decreasing; and after \<^verbatim>\<open>releasePort p\<close> with \<open>p\<close>
  positive and no larger than any released port, the next allocation returns \<open>p\<close>.
\<close>

theorem port_pool_contract:
  assumes s: "s = run_ops ops init_pool"
  shows "(available s \<noteq> [] \<longrightarrow>
            (\<exists>h. allocatePort s = (Min (set (available s)), s\<lparr>available := h\<rparr>)
                \<and> mset (available s) = add_mset (Min (set (available s))) (mset h)))
       \<and> (available s = [] \<longrightarrow>
            allocatePort s = (nextPort s, s\<lparr>nextPort := int64 (nextPort s + 1)\<rparr>))
       \<and> (3000 + int (length ops) + 1 < 2 ^ 63 \<longrightarrow> int64 (nextPort s + 1) = nextPort s + 1)
       \<and> (p \<le> 0 \<longrightarrow> releasePort p s = s)
       \<and> (0 < p \<longrightarrow> (\<exists>h. releasePort p s = s\<lparr>available := h\<rparr>
                \<and> mset h = add_mset p (mset (available s))))
       \<and> (handed_out ops init_pool \<and> 3000 + int (length ops) + int n < 2 ^ 63 \<longrightarrow>
            sorted (allocations n s))
       \<and> (0 < p \<and> (\<forall>q \<in> set (available s). p \<le> q) \<longrightarrow>
            fst (allocatePort (releasePort p s)) = p)"
proof -
  have hp: "is_heap (available s)"
    unfolding s using run_ops_heap [of init_pool ops] init_pool_inv by (simp add: pool_inv_def)
  have a1: "\<exists>h. allocatePort s = (Min (set (available s)), s\<lparr>available := h\<rparr>)
                \<and> mset (available s) = add_mset (Min (set (available s))) (mset h)"
    if ne: "available s \<noteq> []"
    using heap_Pop_correct [OF hp ne] ne by (auto simp: allocatePort_def Len_def)
  have a2: "allocatePort s = (nextPort s, s\<lparr>nextPort := int64 (nextPort s + 1)\<rparr>)"
    if "available s = []"
    using that by (simp add: allocatePort_def Len_def)
  have a3: "int64 (nextPort s + 1) = nextPort s + 1" if b: "3000 + int (length ops) + 1 < 2 ^ 63"
  proof -
    have "nextPort init_pool \<le> nextPort s \<and> nextPort s \<le> nextPort init_pool + int (length ops)"
      unfolding s using b by (intro run_ops_next) (simp_all add: init_pool_def)
    then show ?thesis using b by (intro int64_id) (simp_all add: init_pool_def)
  qed
  have r1: "releasePort p s = s" if "p \<le> 0"
    using that by (simp add: releasePort_def)
  have r2: "\<exists>h. releasePort p s = s\<lparr>available := h\<rparr> \<and> mset h = add_mset p (mset (available s))"
    if "0 < p"
    using that heap_Push_correct [OF hp, of p] by (auto simp: releasePort_def)
  have so: "sorted (allocations n s)"
    if h: "handed_out ops init_pool \<and> 3000 + int (length ops) + int n < 2 ^ 63"
  proof -
    have b: "nextPort init_pool + int (length ops) < 2 ^ 63"
      using h by (simp add: init_pool_def)
    have i: "pool_inv s"
      unfolding s using run_ops_inv [OF init_pool_inv _ b] h by simp
    have "nextPort s \<le> nextPort init_pool + int (length ops)"
      unfolding s using run_ops_next [of init_pool ops] b by (simp add: init_pool_def)
    then have "nextPort s + int n < 2 ^ 63" using h by (simp add: init_pool_def)
    then show ?thesis using allocations_sorted [OF i] by simp
  qed
  have nx: "fst (allocatePort (releasePort p s)) = p"
    if p: "0 < p" "\<forall>q \<in> set (available s). p \<le> q"
  proof -
    let ?t = "releasePort p s"
    obtain h where h: "?t = s\<lparr>available := h\<rparr>" "mset h = add_mset p (mset (available s))"
      using r2 [OF p(1)] by blast
    have hs: "set h = insert p (set (available s))"
      using set_of_mset_add [OF h(2)] .
    have ne: "available ?t \<noteq> []" using h hs by auto
    have hp': "is_heap (available ?t)" using releasePort_heap [OF hp] .
    have "Min (set (available ?t)) = p"
      using h(1) hs p(2) by (auto intro!: Min_eqI)
    then show ?thesis
      using heap_Pop_correct [OF hp' ne] ne by (auto simp: allocatePort_def Len_def)
  qed
  show ?thesis using a1 a2 a3 r1 r2 so nx by blast
qed

lemma int64_small [simp]: "int64 3001 = 3001" "int64 3002 = 3002" "int64 3003 = 3003"
  "int64 3004 = 3004"
  by (simp_all add: int64_def)

lemmas pool_eval = init_pool_def releasePort_def heap_Push_def Push_def Len_def up.simps
  Less_def Swap_def allocatePort_def heap_Pop_def Pop_def down.simps

theorem port_pool_contract_witness:
  "handed_out [Allocate, Allocate, Allocate, Release 3001] init_pool
   \<and> allocatePort (run_ops [Allocate, Allocate, Allocate, Release 3001] init_pool)
       = (3001, \<lparr>nextPort = 3003, available = []\<rparr>)
   \<and> allocatePort (run_ops [] init_pool) = (3000, \<lparr>nextPort = 3001, available = []\<rparr>)
   \<and> releasePort 0 (run_ops [] init_pool) = init_pool
   \<and> allocations 3 (run_ops [Allocate, Allocate, Allocate, Release 3001] init_pool)
       = [3001, 3003, 3004]
   \<and> sorted (allocations 3 (run_ops [Allocate, Allocate, Allocate, Release 3001] init_pool))
   \<and> fst (allocatePort (releasePort 3000
         (run_ops [Allocate, Allocate, Allocate, Release 3001] init_pool))) = 3000"
proof -
  let ?ops = "[Allocate, Allocate, Allocate, Release 3001]"
  let ?s = "run_ops ?ops init_pool"
  have s: "?s = \<lparr>nextPort = 3003, available = [3001]\<rparr>"
    by (simp add: pool_eval)
  have h: "handed_out ?ops init_pool \<and> 3000 + int (length ?ops) + int 3 < 2 ^ 63"
    by (simp add: pool_eval)
  have e: "run_ops [] init_pool = init_pool" by simp
  note t1 = port_pool_contract [OF refl, of ?ops 3000 3]
  note t2 = port_pool_contract [OF refl, of "[]" 0 0]
  have a: "available ?s \<noteq> []" "0 < (3000::int)" "\<forall>q \<in> set (available ?s). 3000 \<le> q"
    using s by simp_all
  have b: "available (run_ops [] init_pool) = []" "(0::int) \<le> 0"
    "3000 + int (length ([] :: pool_op list)) + 1 < 2 ^ 63"
    by (simp_all add: init_pool_def)
  have al: "allocations 3 ?s = [3001, 3003, 3004]"
    unfolding s by (simp add: pool_eval numeral_3_eq_3)
  from t1 a h have "sorted (allocations 3 ?s)"
    and "fst (allocatePort (releasePort 3000 ?s)) = 3000"
    and "\<exists>h. allocatePort ?s = (Min (set (available ?s)), ?s\<lparr>available := h\<rparr>)
                \<and> mset (available ?s) = add_mset (Min (set (available ?s))) (mset h)"
    by blast+
  moreover from t2 b have "allocatePort (run_ops [] init_pool)
       = (nextPort (run_ops [] init_pool),
          (run_ops [] init_pool)\<lparr>nextPort := int64 (nextPort (run_ops [] init_pool) + 1)\<rparr>)"
    and "int64 (nextPort (run_ops [] init_pool) + 1) = nextPort (run_ops [] init_pool) + 1"
    and "releasePort 0 (run_ops [] init_pool) = run_ops [] init_pool"
    by blast+
  ultimately show ?thesis using h s al by (auto simp: init_pool_def)
qed

text \<open>
  Both conditions are needed. A port that was never handed out, released on the initial
  pool, comes back before the watermark; and at the largest 64-bit integer the watermark
  wraps around.
\<close>

lemma release_of_unallocated_port:
  "allocations 2 (run_ops [Release 5000] init_pool) = [5000, 3000]"
  by (simp add: pool_eval numeral_2_eq_2)

lemma watermark_wraps:
  "allocations 2 \<lparr>nextPort = 2 ^ 63 - 1, available = []\<rparr> = [2 ^ 63 - 1, - (2 ^ 63)]"
  by (simp add: pool_eval numeral_2_eq_2 int64_def)

section \<open>Properties of placement and reaper\<close>

lemma registry_cpu:
  assumes "im \<in> set (registry cfg ops)"
  shows "CPUPercent im = 0"
proof -
  have del: "set (deleteIM d n ims) \<subseteq> set ims" for d n ims
    by (induction ims) auto
  have step: "\<forall>im \<in> set ims. CPUPercent im = 0 \<Longrightarrow> \<forall>im \<in> set (reg_step x ims). CPUPercent im = 0" for x ims
    by (cases x) (auto simp: createIM_def new_im_def dest: subsetD [OF del])
  have "\<forall>im \<in> set ims. CPUPercent im = 0 \<Longrightarrow> \<forall>im \<in> set (fold reg_step ops ims). CPUPercent im = 0" for ims
  proof (induction ops arbitrary: ims)
    case Nil then show ?case by simp
  next
    case (Cons x xs)
    show ?case using Cons.IH [OF step [OF Cons.prems]] by simp
  qed
  moreover have "\<forall>im \<in> set (loadConfig cfg). CPUPercent im = 0"
    by (auto simp: loadConfig_def new_im_def)
  ultimately show ?thesis
    using assms by (simp add: registry_def)
qed

lemma poll_one_online: "CPUPercent im = 0 \<Longrightarrow> CPUPercent (poll_one im r) \<noteq> 0 \<Longrightarrow> State (poll_one im r) = ''Online''"
  by (cases r) auto

lemma snapshot_online:
  assumes "poller_snapshot snap" and "im \<in> set snap" and "CPUPercent im \<noteq> 0"
  shows "State im = ''Online''"
proof -
  obtain cfg ops net polled upd where
    p: "mset polled = mset (fetchInstanceSummaries (registry cfg ops) net)"
    and s: "snap = merge_proxy upd polled"
    using assms(1) unfolding poller_snapshot_def by blast
  obtain im0 where im0: "im0 \<in> set polled" "im = im0\<lparr>Instances := map upd (Instances im0)\<rparr>"
    using assms(2) s by (auto simp: merge_proxy_def)
  have "set polled = set (fetchInstanceSummaries (registry cfg ops) net)"
    using p by (rule mset_eq_setD)
  then obtain r where r: "r \<in> set (registry cfg ops)" "im0 = poll_one r (net r)"
    using im0(1) by (auto simp: fetchInstanceSummaries_def)
  have "State im0 = ''Online''"
    using poll_one_online [OF registry_cpu [OF r(1)], of "net r"] r(2) im0(2) assms(3) by simp
  then show ?thesis using im0(2) by simp
qed






lemma selected_least:
  assumes c: "sort_contract srt" and ne: "xs \<noteq> []"
  shows "\<exists>sel rest. srt xs = sel # rest \<and> sel \<in> set xs
           \<and> (\<forall>im \<in> set xs. CPUPercent sel \<le> CPUPercent im
                 \<and> (CPUPercent sel = CPUPercent im \<longrightarrow>
                       RAMTotalMB im - RAMUsedMB im \<le> RAMTotalMB sel - RAMUsedMB sel))"
proof -
  have m: "mset (srt xs) = mset xs" and so: "sorted_wrt (\<lambda>a b. \<not> im_less b a) (srt xs)"
    using c by (simp_all add: sort_contract_def)
  have st: "set (srt xs) = set xs" using m by (rule mset_eq_setD)
  then obtain sel rest where sr: "srt xs = sel # rest"
    using ne by (cases "srt xs") auto
  have "\<not> im_less im sel" if "im \<in> set xs" for im
  proof (cases "im = sel")
    case True then show ?thesis by (simp add: im_less_def)
  next
    case False
    then have "im \<in> set rest" using that st sr by auto
    then show ?thesis using so sr by auto
  qed
  then have "CPUPercent sel \<le> CPUPercent im
                 \<and> (CPUPercent sel = CPUPercent im \<longrightarrow>
                       RAMTotalMB im - RAMUsedMB im \<le> RAMTotalMB sel - RAMUsedMB sel)"
    if "im \<in> set xs" for im
    using that by (cases "CPUPercent im = CPUPercent sel") (force simp: im_less_def Let_def)+
  then have "\<forall>im \<in> set xs. CPUPercent sel \<le> CPUPercent im
                 \<and> (CPUPercent sel = CPUPercent im \<longrightarrow>
                       RAMTotalMB im - RAMUsedMB im \<le> RAMTotalMB sel - RAMUsedMB sel)"
    by blast
  moreover have "sel \<in> set xs" using st sr by auto
  ultimately show ?thesis using sr by blast
qed

lemma place_filter:
  assumes "poller_snapshot snap"
  shows "filter (\<lambda>im. CPUPercent im \<noteq> 0) snap
       = filter (\<lambda>im. State im = ''Online'' \<and> CPUPercent im \<noteq> 0) snap"
  by (rule filter_cong [OF refl]) (use snapshot_online [OF assms] in blast)






lemma wrap_wins_tie:
  assumes snap: "poller_snapshot snap" and srt: "sort_contract srt"
    and w: "set (filter (\<lambda>im. State im = ''Online'' \<and> CPUPercent im \<noteq> 0) snap) = {b, w}"
    and c: "CPUPercent b = CPUPercent w"
    and f: "RAMTotalMB b - RAMUsedMB b < RAMTotalMB w - RAMUsedMB w"
  shows "place srt snap = Selected w"
proof -
  let ?el = "filter (\<lambda>im. State im = ''Online'' \<and> CPUPercent im \<noteq> 0) snap"
  have fl: "filter (\<lambda>im. CPUPercent im \<noteq> 0) snap = ?el"
    using place_filter [OF snap] by simp
  have bw: "b \<in> set ?el" "w \<in> set ?el" unfolding w by simp_all
  have ne: "?el \<noteq> []"
  proof
    assume "?el = []"
    then have "set ?el = {}" by (simp only: set_empty)
    then show False using bw(1) by (simp only: empty_iff)
  qed
  obtain sel rest where sr: "srt ?el = sel # rest" "sel \<in> set ?el"
      "\<forall>im \<in> set ?el. CPUPercent sel \<le> CPUPercent im
                     \<and> (CPUPercent sel = CPUPercent im \<longrightarrow>
                           RAMTotalMB im - RAMUsedMB im \<le> RAMTotalMB sel - RAMUsedMB sel)"
    using selected_least [OF srt ne] by blast
  have pl: "place srt snap = Selected sel"
    using sr(1) ne fl by (simp add: place_def)
  have "sel \<noteq> b"
  proof
    assume "sel = b"
    then have "RAMTotalMB w - RAMUsedMB w \<le> RAMTotalMB b - RAMUsedMB b"
      using sr(3) bw(2) c by blast
    then show False using f by (meson leD)
  qed
  moreover have "sel = b \<or> sel = w" using sr(2) unfolding w by simp
  ultimately show ?thesis using pl by simp
qed

lemma reap_instance_cases:
  "reap_instance s r im inst =
     (if reapable inst
      then (if s then [StopServer (Domain im) (Instance.Name inst) True, Sleep2s,
                       RemoveServer (Instance.Name inst) r]
            else [StopServer (Domain im) (Instance.Name inst) False])
      else [])"
  by (auto simp: reap_instance_def reapable_def)

lemma enumerate_upt: "enumerate 0 xs = map (\<lambda>k. (k, xs ! k)) [0..<length xs]"
proof -
  have "zip [0..<length xs] xs = zip [0..<length xs] (map ((!) xs) [0..<length xs])"
    by (simp add: map_nth)
  also have "\<dots> = map (\<lambda>k. (k, xs ! k)) [0..<length xs]"
    by (simp add: zip_map2 zip_same_conv_map)
  finally show ?thesis by (simp add: enumerate_eq_zip)
qed

lemma sweep_positions:
  "cleanupEmptyServers (Some ims) stop_ok remove_ok =
     concat (map (\<lambda>i. concat (map (\<lambda>j.
          reap_instance (stop_ok i j) (remove_ok i j) (ims ! i) (Instances (ims ! i) ! j))
        [0..<length (Instances (ims ! i))])) [0..<length ims])"
  by (simp add: cleanupEmptyServers_def reap_manager_def enumerate_upt comp_def)

lemma sweep_requests:
  assumes "q \<in> set (cleanupEmptyServers summ stop_ok remove_ok)"
  shows "reap_request_ok (the summ) q"
proof (cases summ)
  case None
  then show ?thesis using assms by (simp add: cleanupEmptyServers_def)
next
  case (Some ims)
  then obtain i j where ij: "i < length ims" "j < length (Instances (ims ! i))"
    "q \<in> set (reap_instance (stop_ok i j) (remove_ok i j) (ims ! i) (Instances (ims ! i) ! j))"
    using assms unfolding Some sweep_positions by auto
  let ?im = "ims ! i" and ?inst = "Instances (ims ! i) ! j"
  have m: "?im \<in> set ims" "?inst \<in> set (Instances ?im)" using ij(1,2) by simp_all
  have r: "reapable ?inst" using ij(3) by (auto simp: reap_instance_cases split: if_splits)
  then have nl: "Instance.Name ?inst \<noteq> ''lobby''" by (simp add: reapable_def)
  have ex: "\<exists>im \<in> set ims. \<exists>inst \<in> set (Instances im).
      Domain im = Domain ?im \<and> Instance.Name inst = Instance.Name ?inst \<and> reapable inst"
    using m r by blast
  then have ex': "\<exists>im \<in> set ims. \<exists>inst \<in> set (Instances im).
      Instance.Name inst = Instance.Name ?inst \<and> reapable inst"
    by blast
  have "q = StopServer (Domain ?im) (Instance.Name ?inst) False
      \<or> q = StopServer (Domain ?im) (Instance.Name ?inst) True
      \<or> q = Sleep2s
      \<or> q = RemoveServer (Instance.Name ?inst) (remove_ok i j)"
    using ij(3) by (auto simp: reap_instance_cases split: if_splits)
  then show ?thesis using nl Some ex ex'
    by (elim disjE) (simp_all add: reap_request_ok_def)
qed

text \<open>
  Claim C8. A sweep of the reaper is the concatenation, over the instances of the
  snapshot, of the requests for each: none for an instance that is named \<^verbatim>\<open>lobby\<close>, has
  players, or is neither \<^verbatim>\<open>running\<close> nor \<^verbatim>\<open>started\<close>; the stop request alone when it
  fails; the stop request, the wait of 2 s and the proxy's \<^verbatim>\<open>remove_server\<close> when it
  succeeds. So every stop and every removal of the sweep is for an instance of the snapshot
  that is not the lobby, has no players and is running or started.
\<close>

theorem reaper_sweep:
  "cleanupEmptyServers None stop_ok remove_ok = []
   \<and> cleanupEmptyServers (Some ims) stop_ok remove_ok =
       concat (map (\<lambda>i. concat (map (\<lambda>j.
            reap_instance (stop_ok i j) (remove_ok i j) (ims ! i) (Instances (ims ! i) ! j))
          [0..<length (Instances (ims ! i))])) [0..<length ims])
   \<and> (\<not> reapable inst \<longrightarrow> reap_instance s r im inst = [])
   \<and> (Instance.Name inst = ''lobby'' \<longrightarrow> reap_instance s r im inst = [])
   \<and> (reapable inst \<and> \<not> s \<longrightarrow>
        reap_instance s r im inst = [StopServer (Domain im) (Instance.Name inst) False])
   \<and> (reapable inst \<and> s \<longrightarrow>
        reap_instance s r im inst =
          [StopServer (Domain im) (Instance.Name inst) True, Sleep2s,
           RemoveServer (Instance.Name inst) r])
   \<and> (\<forall>q \<in> set (cleanupEmptyServers (Some ims) stop_ok remove_ok).
         (\<forall>d n ok. q = StopServer d n ok \<longrightarrow> n \<noteq> ''lobby''
            \<and> (\<exists>im \<in> set ims. \<exists>inst \<in> set (Instances im).
                  Domain im = d \<and> Instance.Name inst = n \<and> PlayerCount inst = 0
                  \<and> (Instance.Status inst = ''running'' \<or> Instance.Status inst = ''started'')))
       \<and> (\<forall>n ok. q = RemoveServer n ok \<longrightarrow> n \<noteq> ''lobby''
            \<and> (\<exists>im \<in> set ims. \<exists>inst \<in> set (Instances im).
                  Instance.Name inst = n \<and> PlayerCount inst = 0
                  \<and> (Instance.Status inst = ''running'' \<or> Instance.Status inst = ''started''))))"
proof -
  have lob: "reap_instance s r im inst = []" if "Instance.Name inst = ''lobby''"
    using that by (simp add: reap_instance_def)
  have req: "(\<forall>d n ok. q = StopServer d n ok \<longrightarrow> n \<noteq> ''lobby''
            \<and> (\<exists>im \<in> set ims. \<exists>inst \<in> set (Instances im).
                  Domain im = d \<and> Instance.Name inst = n \<and> PlayerCount inst = 0
                  \<and> (Instance.Status inst = ''running'' \<or> Instance.Status inst = ''started'')))
       \<and> (\<forall>n ok. q = RemoveServer n ok \<longrightarrow> n \<noteq> ''lobby''
            \<and> (\<exists>im \<in> set ims. \<exists>inst \<in> set (Instances im).
                  Instance.Name inst = n \<and> PlayerCount inst = 0
                  \<and> (Instance.Status inst = ''running'' \<or> Instance.Status inst = ''started'')))"
    if "q \<in> set (cleanupEmptyServers (Some ims) stop_ok remove_ok)" for q
    using sweep_requests [OF that] unfolding reap_request_ok_def reapable_def
    by (cases q) (simp_all, blast+)
  show ?thesis
    using lob req sweep_positions [of ims stop_ok remove_ok]
    by (simp add: reap_instance_cases cleanupEmptyServers_def)
qed

theorem reaper_sweep_witness:
  "cleanupEmptyServers
     (Some [\<lparr>State = ''Online'', Domain = ''n1:8000'', InstanceManager.Name = ''m1'', CPUPercent = 20,
             RAMUsedMB = 8000, RAMTotalMB = 16000,
             Instances =
               [\<lparr>Instance.Name = ''lobby'', Players = [], PlayerCount = 0, TPS = 20, Instance.Port = 3000,
                  Instance.Status = ''running''\<rparr>,
                \<lparr>Instance.Name = ''gamma'', Players = [], PlayerCount = 0, TPS = 20, Instance.Port = 3001,
                  Instance.Status = ''running''\<rparr>,
                \<lparr>Instance.Name = ''delta'', Players = [], PlayerCount = 0, TPS = 20, Instance.Port = 3002,
                  Instance.Status = ''running''\<rparr>]\<rparr>])
     (\<lambda>i j. j = 1) (\<lambda>i j. True)
   = [StopServer ''n1:8000'' ''gamma'' True, Sleep2s, RemoveServer ''gamma'' True,
      StopServer ''n1:8000'' ''delta'' False]"
proof -
  let ?l = "\<lparr>Instance.Name = ''lobby'', Players = [], PlayerCount = 0, TPS = 20, Instance.Port = 3000,
                  Instance.Status = ''running''\<rparr>"
  let ?g = "\<lparr>Instance.Name = ''gamma'', Players = [], PlayerCount = 0, TPS = 20, Instance.Port = 3001,
                  Instance.Status = ''running''\<rparr>"
  let ?d = "\<lparr>Instance.Name = ''delta'', Players = [], PlayerCount = 0, TPS = 20, Instance.Port = 3002,
                  Instance.Status = ''running''\<rparr>"
  let ?im = "\<lparr>State = ''Online'', Domain = ''n1:8000'', InstanceManager.Name = ''m1'', CPUPercent = 20,
             RAMUsedMB = 8000, RAMTotalMB = 16000, Instances = [?l, ?g, ?d]\<rparr>"
  have r: "Instance.Name ?l = ''lobby''" "reapable ?g \<and> True" "reapable ?d \<and> \<not> False"
    by (simp_all add: reapable_def)
  note tl = reaper_sweep [of "\<lambda>i j. j = 1" "\<lambda>i j. True" "[?im]" ?l False True ?im]
  note tg = reaper_sweep [of "\<lambda>i j. j = 1" "\<lambda>i j. True" "[?im]" ?g True True ?im]
  note td = reaper_sweep [of "\<lambda>i j. j = 1" "\<lambda>i j. True" "[?im]" ?d False True ?im]
  have bl: "reap_instance False True ?im ?l = []"
    using tl r(1) by blast
  have bg: "reap_instance True True ?im ?g
      = [StopServer (Domain ?im) (Instance.Name ?g) True, Sleep2s, RemoveServer (Instance.Name ?g) True]"
    using tg r(2) by blast
  have bd: "reap_instance False True ?im ?d = [StopServer (Domain ?im) (Instance.Name ?d) False]"
    using td r(3) by blast
  have "cleanupEmptyServers (Some [?im]) (\<lambda>i j. j = 1) (\<lambda>i j. True) =
       concat (map (\<lambda>i. concat (map (\<lambda>j.
            reap_instance (j = 1) True ([?im] ! i) (Instances ([?im] ! i) ! j))
          [0..<length (Instances ([?im] ! i))])) [0..<length [?im]])"
    using tl by blast
  then show ?thesis using bl bg bd
    by (simp add: upt_rec numeral_3_eq_3)
qed


section \<open>Properties of the instance manager\<close>

lemma dir3000: "server_dir 3000 = ''paper_server_3000''"
  by (simp add: server_dir_def show_int_def show_nat.simps)

lemma ready1: "ready_line ''[INFO]: Done (12.3s)! For help, type help''"
  by (simp add: ready_line_def)

lemma ready2: "\<not> ready_line ''Starting minecraft server''"
  by (simp add: ready_line_def)

lemma short_lines:
  "\<not> too_long ''[INFO]: Done (12.3s)! For help, type help''"
  "\<not> too_long ''Starting minecraft server''"
  "\<not> too_long ''Failed to bind to port''"
  by (simp_all add: too_long_def MaxScanTokenSize_def)

lemma started_good: "started_at (child_output good_env) (child_eof good_env) = Some (20000, True)"
  by (simp add: good_env_def ready1 ready2 short_lines)

lemmas im_eval = init_state_def allocatePort_def releasePort_def Len_def new_child_def
  set_ready_def set_life_def Let_def

lemma alpha_running_reached:
  "startServerHandler good_env ''alpha'' init_state =
     (Response 200 (Started ''alpha'' 3000),
      [SetupDir ''paper_server_3000'', StartChild ''paper_server_3000'' 0], alpha_running)"
  unfolding startServerHandler_def started_good
  by (simp add: im_eval dir3000 alpha_running_def good_env_def)


lemma zip_good: "zipDir (world_dir good_env) (zip_create_ok good_env) world_blacklist = Inr [''level.dat'']"
  by (simp add: good_env_def zipDir_def world_blacklist_def zip_visit_def child_path_def)

lemma evacuate_good: "evacuate good_env = Inr [''p1'', ''p2'']"
  by (simp add: evacuate_def good_env_def)

lemma evacuation_alpha: "evacuation ''alpha'' r = ProxyMoveFromTo ''alpha'' (Some ''lobby'') r"
  by (simp add: evacuation_def defaultFallback_def)

lemma good_flags:
  "dir_exists good_env" "tmp_ok good_env" "exits_in_time good_env" "copy_ok good_env"
  "pipe_ok good_env" "start_ok good_env" "upload_ok good_env"
  by (simp_all add: good_env_def)

lemma hold_alpha:
  "stopServerHold good_env ''alpha'' 0 alpha_restarting = (Returned None, [Signal 0], alpha_held)"
  by (simp add: stopServerHold_def alpha_restarting_def alpha_held_def good_flags im_eval)

lemma mark_alpha:
  "alpha_running\<lparr>objs := (objs alpha_running)[0 := (objs alpha_running ! 0)\<lparr>Status := ''restarting''\<rparr>]\<rparr>
     = alpha_restarting"
  "alpha_restarting\<lparr>objs := (objs alpha_restarting)[0 := (objs alpha_restarting ! 0)\<lparr>Status := ''restarting''\<rparr>]\<rparr>
     = alpha_restarting"
  "map_of (serverMap alpha_running) ''alpha'' = Some (Some 0)"
  "map_of (serverMap alpha_restarting) ''alpha'' = Some (Some 0)"
  "Port (objs alpha_restarting ! 0) = 3000"
  by (simp_all add: alpha_running_def alpha_restarting_def)

lemma save_cycle_eval:
  "saveWorldHandler good_env ''alpha'' alpha_running =
     (Response 500 TokenNotSet,
      [ProxyMoveFromTo ''alpha'' (Some ''lobby'') None, Signal 0,
       ZipWorld ''paper_server_3000/world'' [''level.dat'']],
      alpha_held)"
  unfolding saveWorldHandler_def evacuate_good
  by (simp add: mark_alpha Let_def good_flags hold_alpha zip_good dir3000 evacuation_alpha token_def)

text \<open>
  Claim C1 fails on the code. The instance \<^verbatim>\<open>alpha\<close> has a live child that has emitted
  its readiness line, the proxy moves two players away, the child stops and the world is
  archived; then the handler finds the constant \<^verbatim>\<open>token\<close> empty and answers 500: nothing
  is uploaded, the child is not started again, the players are not moved back, and the name
  is left with a \<^verbatim>\<open>nil\<close> record.
\<close>

theorem save_cycle_stops_at_token:
  "live_ready alpha_running ''alpha''
   \<and> saveWorldHandler good_env ''alpha'' alpha_running =
     (Response 500 TokenNotSet,
      [ProxyMoveFromTo ''alpha'' (Some ''lobby'') None, Signal 0,
       ZipWorld ''paper_server_3000/world'' [''level.dat'']],
      alpha_held)"
  using save_cycle_eval by (simp add: live_ready_def alpha_running_def)


lemma alpha_restarting_reached:
  "saveWorldHandler (good_env\<lparr>dir_exists := False\<rparr>) ''alpha'' alpha_running =
     (Response 400 (WorldDirMissing ''paper_server_3000/world''),
      [ProxyMoveFromTo ''alpha'' (Some ''lobby'') None], alpha_restarting)"
proof -
  have "evacuate (good_env\<lparr>dir_exists := False\<rparr>) = Inr [''p1'', ''p2'']"
    by (simp add: evacuate_def good_env_def)
  then show ?thesis
    unfolding saveWorldHandler_def
    by (simp add: mark_alpha Let_def dir3000 evacuation_alpha)
qed

text \<open>
  Claim C4 fails on the code. In the state that the save request above leaves, the child of
  \<^verbatim>\<open>alpha\<close> has been stopped and reaped and the name has a \<^verbatim>\<open>nil\<close> record, which
  \<^verbatim>\<open>systemHandler\<close> reports with status \<^verbatim>\<open>running\<close> and port 0.
\<close>

theorem stopped_reported_running:
  "systemHandler (Some 20) (Some (8589934592, 17179869184))
       (snd (snd (saveWorldHandler good_env ''alpha'' alpha_running))) =
     Inr (20, 8192, 16384,
          [\<lparr>Instance.Name = ''alpha'', Players = [], PlayerCount = 0, TPS = 0,
            Instance.Port = 0, Instance.Status = ''running''\<rparr>])
   \<and> \<not> live_ready (snd (snd (saveWorldHandler good_env ''alpha'' alpha_running))) ''alpha''
   \<and> map life (procs (snd (snd (saveWorldHandler good_env ''alpha'' alpha_running)))) = [Reaped]"
  unfolding save_cycle_eval
  by (simp add: systemHandler_def system_instance_def alpha_held_def live_ready_def)

text \<open>
  In general: every name whose record is \<^verbatim>\<open>nil\<close> is reported as \<^verbatim>\<open>running\<close> on port
  0, and no live child exists for it.
\<close>

lemma nil_record_reported_running:
  assumes "(name, None) \<in> set (serverMap st)" and "distinct (map fst (serverMap st))"
  shows "\<lparr>Instance.Name = name, Players = [], PlayerCount = 0, TPS = 0,
          Instance.Port = 0, Instance.Status = ''running''\<rparr>
           \<in> set (map (system_instance st) (serverMap st))"
    and "\<not> live_ready st name"
proof -
  have "system_instance st (name, None) \<in> set (map (system_instance st) (serverMap st))"
    using assms(1) by (simp add: image_iff) blast
  then show "\<lparr>Instance.Name = name, Players = [], PlayerCount = 0, TPS = 0,
          Instance.Port = 0, Instance.Status = ''running''\<rparr>
           \<in> set (map (system_instance st) (serverMap st))"
    by (simp add: system_instance_def)
  have "map_of (serverMap st) name = Some None"
    using assms by (simp add: map_of_eq_Some_iff)
  then show "\<not> live_ready st name" by (simp add: live_ready_def)
qed

text \<open>
  Claim C2 fails on the code. The child prints two lines, neither the readiness line, and
  its output ends after 5 s: the goroutine closes \<^verbatim>\<open>started\<close>, the \<^verbatim>\<open>select\<close> takes
  that branch, and the handler registers the instance as \<^verbatim>\<open>running\<close> and answers 200
  instead of taking the timeout branch.
\<close>

theorem stream_end_registers:
  "startServerHandler
     (good_env\<lparr>child_output := [(1000, ''Starting minecraft server''),
                                  (2000, ''Failed to bind to port'')],
                child_eof := Some 5000\<rparr>) ''beta'' init_state =
     (Response 200 (Started ''beta'' 3000),
      [SetupDir ''paper_server_3000'', StartChild ''paper_server_3000'' 0],
      \<lparr>nextPort = 3001, available = [],
       objs = [\<lparr>ID = 3000, Port = 3000, Cmd = Some 0, Status = ''running'',
                cleanupOnce = False\<rparr>],
       servers = [(3000, 0)], serverMap = [(''beta'', Some 0)],
       procs = [\<lparr>life = Running, ready = False\<rparr>], serversMux_locked = False\<rparr>)"
proof -
  let ?e = "good_env\<lparr>child_output := [(1000, ''Starting minecraft server''),
                                  (2000, ''Failed to bind to port'')],
                child_eof := Some 5000\<rparr>"
  have "\<not> ready_line ''Failed to bind to port''"
    by (simp add: ready_line_def)
  then have st: "started_at (child_output ?e) (child_eof ?e) = Some (5000, False)"
    by (simp add: ready2 short_lines)
  show ?thesis
    unfolding startServerHandler_def st
    by (simp add: im_eval dir3000 good_env_def)
qed








text \<open>
  A stop request for a name whose record is \<^verbatim>\<open>nil\<close>, as a save request leaves it (claim
  C1), panics while it holds \<^verbatim>\<open>serversMux\<close>. From then on a stop request for any other
  name removes the name from \<^verbatim>\<open>serverMap\<close> and never answers, a start request for a
  new name never answers, and a save request signals the child and never answers.
\<close>

lemma stop_nil_record_panics:
  assumes "name \<noteq> []" "map_of (serverMap s) name = Some None" "\<not> serversMux_locked s"
  shows "stopServerHandler name s =
           (Panic, [], s\<lparr>serverMap := AList.delete name (serverMap s), serversMux_locked := True\<rparr>)"
  using assms by (simp add: stopServerHandler_def Let_def)

lemma stop_held_alpha_panics:
  "stopServerHandler ''alpha'' (snd (snd (saveWorldHandler good_env ''alpha'' alpha_running)))
     = (Panic, [], alpha_held\<lparr>serverMap := [], serversMux_locked := True\<rparr>)"
  unfolding save_cycle_eval
  by (simp add: stopServerHandler_def Let_def alpha_held_def)

lemma stop_blocks_when_locked:
  assumes "name \<noteq> []" "map_of (serverMap s) name = Some srv" "serversMux_locked s"
  shows "stopServerHandler name s = (Blocked, [], s\<lparr>serverMap := AList.delete name (serverMap s)\<rparr>)"
  using assms by (simp add: stopServerHandler_def Let_def)

lemma start_blocks_when_locked:
  assumes "name \<noteq> []" "map_of (serverMap s) name = None" "serversMux_locked s"
  shows "startServerHandler e name s = (Blocked, [], s)"
  using assms by (simp add: startServerHandler_def)

lemma hold_blocks_when_locked:
  assumes "Cmd (objs s ! r) = Some pid" "life (procs s ! pid) \<noteq> Reaped" "serversMux_locked s"
  shows "fst (stopServerHold e name r s) = Waits"
  using assms by (simp add: stopServerHold_def Let_def set_life_def)

text \<open>
  \<^verbatim>\<open>stopServerHold\<close> returns \<^verbatim>\<open>nil\<close> only when \<^verbatim>\<open>serversMux\<close> is free, so the
  \<^verbatim>\<open>startHeldServer\<close> that follows it finds the mutex free: no handler waits for
  \<^verbatim>\<open>serversMux\<close> while it holds \<^verbatim>\<open>mu\<close>.
\<close>

lemma hold_returns_free:
  assumes "stopServerHold e name r s = (Returned None, fx, s')"
  shows "\<not> serversMux_locked s'"
  using assms
  by (auto simp: stopServerHold_def Let_def set_life_def split: option.splits if_splits)

lemma hold_never_holds_mu: "fst (stopServerHold e name r s) \<noteq> WaitsHoldingMu"
  by (auto simp: stopServerHold_def Let_def split: option.splits if_splits)

lemma start_held_free:
  assumes "\<not> serversMux_locked s"
  shows "fst (startHeldServer e name port dir s) \<noteq> WaitsHoldingMu"
    and "fst (startHeldServer e name port dir s) \<noteq> Waits"
  using assms
  by (auto simp: startHeldServer_def Let_def new_child_def set_ready_def set_life_def
      split: option.splits if_splits prod.splits)

lemma mu_never_held:
  "fst (startServerHandler e name s) \<noteq> BlockedHoldingMu"
  "fst (stopServerHandler name s) \<noteq> BlockedHoldingMu"
  "fst (saveWorldHandler e name s) \<noteq> BlockedHoldingMu"
  "fst (restartWorldHandler e name s) \<noteq> BlockedHoldingMu"
proof -
  show "fst (startServerHandler e name s) \<noteq> BlockedHoldingMu"
    by (auto simp: startServerHandler_def Let_def split: prod.splits option.splits)
  show "fst (stopServerHandler name s) \<noteq> BlockedHoldingMu"
    by (auto simp: stopServerHandler_def Let_def split: option.splits)
  have ev: "r \<noteq> BlockedHoldingMu" if "evacuate e = Inl r" for r
    using that
    by (auto simp: evacuate_def split: proxy_move.splits move_body.splits if_splits)
  have st: "fst (startHeldServer e name port dir s2) \<noteq> WaitsHoldingMu"
    if "stopServerHold e name r s1 = (Returned None, fx, s2)" for r s1 fx s2 port dir
    using start_held_free(1) [OF hold_returns_free [OF that]] .
  have ho: "stopServerHold e name r s1 \<noteq> (WaitsHoldingMu, fx, s2)" for r s1 fx s2
    using hold_never_holds_mu [of e name r s1] by auto
  show "fst (saveWorldHandler e name s) \<noteq> BlockedHoldingMu"
    using ho ev
    by (auto simp: saveWorldHandler_def Let_def token_def
        split: sum.splits prod.splits option.splits held_result.splits)
  show "fst (restartWorldHandler e name s) \<noteq> BlockedHoldingMu"
  proof (cases "name = []")
    case True then show ?thesis by (simp add: restartWorldHandler_def)
  next
    case nm: False
    show ?thesis
    proof (cases "evacuate e")
      case (Inl r)
      then show ?thesis using nm ev [OF Inl] by (simp add: restartWorldHandler_def Let_def)
    next
      case (Inr moved)
      show ?thesis
      proof (cases "map_of (serverMap s) name")
        case None
        then show ?thesis using nm Inr by (simp add: restartWorldHandler_def Let_def)
      next
        case (Some v)
        show ?thesis
        proof (cases v)
          case None
          then show ?thesis using nm Inr Some by (simp add: restartWorldHandler_def Let_def)
        next
          case (Some srv)
          let ?s1 = "s\<lparr>objs := (objs s)[srv := (objs s ! srv)\<lparr>Status := ''restarting''\<rparr>]\<rparr>"
          obtain res fx s2 where h: "stopServerHold e name srv ?s1 = (res, fx, s2)"
            by (cases "stopServerHold e name srv ?s1")
          obtain res3 fx3 s3 where
            t: "startHeldServer e name (Port (objs ?s1 ! srv)) (server_dir (Port (objs ?s1 ! srv))) s2
                  = (res3, fx3, s3)"
            by (cases "startHeldServer e name (Port (objs ?s1 ! srv))
                         (server_dir (Port (objs ?s1 ! srv))) s2")
          have a: "res \<noteq> WaitsHoldingMu" using ho h by auto
          have b: "res3 \<noteq> WaitsHoldingMu" if "res = Returned None"
          proof -
            have "stopServerHold e name srv ?s1 = (Returned None, fx, s2)"
              using h that by simp
            from st [OF this, of "Port (objs ?s1 ! srv)" "server_dir (Port (objs ?s1 ! srv))"]
            show ?thesis unfolding t by simp
          qed
          show ?thesis
            using nm Inr \<open>map_of (serverMap s) name = Some v\<close> Some h t a b
            by (auto simp: restartWorldHandler_def Let_def
                split: held_result.splits option.splits)
        qed
      qed
    qed
  qed
qed










lemma saveWorldHandler_never_ok:
  "fst (saveWorldHandler e name s) \<noteq> Response 200 b"
  by (auto simp: saveWorldHandler_def Let_def token_def evacuate_def
      split: sum.splits prod.splits option.splits proxy_move.splits move_body.splits
        held_result.splits)

text \<open>
  The two lemmas below give the part of claim C2 that holds: once the child is started,
  the handler answers 504 exactly when \<^verbatim>\<open>started\<close> is not closed within 60 s, and then
  it kills the child and returns the port to the pool.
\<close>

lemma start_outcomes:
  assumes "name \<noteq> []" "map_of (serverMap s) name = None" "setup_ok e" "pipe_ok e" "start_ok e"
    and "\<not> serversMux_locked s"
  shows "fst (startServerHandler e name s) =
     (case started_at (child_output e) (child_eof e) of
        None \<Rightarrow> Response 504 StartTimedOut
      | Some (t, matched) \<Rightarrow>
          if t < 60000 then Response 200 (Started name (fst (allocatePort s)))
          else Response 504 StartTimedOut)"
  using assms
  by (auto simp: startServerHandler_def Let_def new_child_def split: prod.splits option.splits)

lemma start_timeout_releases:
  assumes "name \<noteq> []" "map_of (serverMap s) name = None" "setup_ok e" "pipe_ok e" "start_ok e"
    and "\<not> serversMux_locked s"
    and "fst (startServerHandler e name s) = Response 504 StartTimedOut"
    and "allocatePort s = (port, s1)"
  shows "startServerHandler e name s =
     (Response 504 StartTimedOut,
      [SetupDir (server_dir port), StartChild (server_dir port) (length (procs s)),
       Kill (length (procs s))],
      releasePort port (set_life (length (procs s)) Exited (snd (new_child s1))))"
proof -
  have "procs s1 = procs s" using assms(8)
    by (auto simp: allocatePort_def split: if_splits option.splits)
  then show ?thesis using assms
    by (auto simp: startServerHandler_def Let_def new_child_def split: prod.splits option.splits if_splits)
qed


section \<open>The pool under the requests of the instance manager\<close>

lemma alist_update_set: "set (AList.update k v al) \<subseteq> insert (k, v) (set al)"
  by (induction al) auto

lemma alist_delete_set: "set (AList.delete k al) \<subseteq> set al"
  by (induction al) auto

lemma allocatePort_more:
  "objs (snd (allocatePort (s :: im_state))) = objs s" "servers (snd (allocatePort s)) = servers s"
  "serverMap (snd (allocatePort s)) = serverMap s" "procs (snd (allocatePort s)) = procs s"
  by (auto simp: allocatePort_def split: option.splits)

lemma releasePort_more:
  "objs (releasePort p (s :: im_state)) = objs s" "servers (releasePort p s) = servers s"
  "serverMap (releasePort p s) = serverMap s" "procs (releasePort p s) = procs s"
  "nextPort (releasePort p s) = nextPort s"
  by (auto simp: releasePort_def)

lemma allocatePort_below:
  assumes "pool_inv s" "allocatePort s = (p, s')" "nextPort s + 1 < 2 ^ 63"
  shows "p < nextPort s'" "pool_inv s'" "nextPort s \<le> nextPort s'" "nextPort s' \<le> nextPort s + 1"
proof -
  note st = allocatePort_step [OF assms]
  show "pool_inv s'" using st by simp
  show nx: "nextPort s \<le> nextPort s'" using st by simp
  show "nextPort s' \<le> nextPort s + 1" using st by simp
  show "p < nextPort s'"
  proof (cases "available s = []")
    case True
    have "int64 (nextPort s + 1) = nextPort s + 1"
      using assms(1,3) by (intro int64_id) (simp_all add: pool_inv_def)
    then show ?thesis using True assms(2) by (auto simp: allocatePort_def Len_def)
  next
    case False
    have "Min (set (available s)) \<in> set (available s)" using False by simp
    then have "lowest_free s < nextPort s" using assms(1) False
      by (simp add: lowest_free_def pool_inv_def list_all_iff)
    then show ?thesis using st nx by simp
  qed
qed


lemma objs_inv_pool:
  assumes "objs_inv s" "objs s' = objs s" "servers s' = servers s" "serverMap s' = serverMap s"
    "nextPort s \<le> nextPort s'"
  shows "objs_inv s'"
  unfolding objs_inv_def
proof (intro conjI ballI allI impI)
  fix srv assume "srv \<in> set (objs s')"
  then have "ID srv < nextPort s \<and> Port srv < nextPort s"
    using assms(1,2) by (simp add: objs_inv_def)
  then show "ID srv < nextPort s'" "Port srv < nextPort s'" using assms(5) by simp_all
next
  fix kr assume "kr \<in> set (servers s')"
  then show "snd kr < length (objs s')" using assms(1,2,3) by (simp add: objs_inv_def)
next
  fix nr r assume "nr \<in> set (serverMap s')" "snd nr = Some r"
  then show "r < length (objs s')" using assms(1,2,4) by (simp add: objs_inv_def)
qed

lemma pool_inv_more:
  "pool_inv (s\<lparr>procs := ps\<rparr>) = pool_inv (s :: im_state)"
  "pool_inv (s\<lparr>objs := os\<rparr>) = pool_inv s"
  "pool_inv (s\<lparr>servers := sv\<rparr>) = pool_inv s"
  "pool_inv (s\<lparr>serverMap := sm\<rparr>) = pool_inv s"
  "pool_inv (s\<lparr>serversMux_locked := b\<rparr>) = pool_inv s"
  by (simp_all add: pool_inv_def)

lemma im_inv_release:
  assumes "im_inv s" "p < nextPort s"
  shows "im_inv (releasePort p s)"
proof -
  have "pool_inv (releasePort p s)" using assms releasePort_inv [of s p] by (simp add: im_inv_def)
  moreover have "objs_inv (releasePort p s)"
    using objs_inv_pool [of s "releasePort p s"] assms(1) by (simp add: im_inv_def releasePort_more)
  ultimately show ?thesis by (simp add: im_inv_def)
qed

lemma im_inv_procs [simp]: "im_inv (s\<lparr>procs := ps\<rparr>) = im_inv s"
  by (simp add: im_inv_def pool_inv_more objs_inv_def)

lemma im_inv_locked [simp]: "im_inv (s\<lparr>serversMux_locked := b\<rparr>) = im_inv s"
  by (simp add: im_inv_def pool_inv_more objs_inv_def)

lemma im_inv_set_life [simp]: "im_inv (set_life pid l s) = im_inv s"
  by (simp add: set_life_def)

lemma im_inv_set_ready [simp]: "im_inv (set_ready pid b s) = im_inv s"
  by (simp add: set_ready_def)

lemma im_inv_servers:
  assumes "im_inv s" "\<forall>kr \<in> set sv. snd kr < length (objs s)"
  shows "im_inv (s\<lparr>servers := sv\<rparr>)"
  using assms by (simp add: im_inv_def pool_inv_more objs_inv_def)

lemma im_inv_serverMap:
  assumes "im_inv s" "\<forall>nr \<in> set sm. \<forall>r. snd nr = Some r \<longrightarrow> r < length (objs s)"
  shows "im_inv (s\<lparr>serverMap := sm\<rparr>)"
  using assms by (simp add: im_inv_def pool_inv_more objs_inv_def)

lemma im_inv_servers_delete:
  assumes "im_inv s"
  shows "im_inv (s\<lparr>servers := AList.delete k (servers s)\<rparr>)"
proof (rule im_inv_servers [OF assms], rule ballI)
  fix kr assume "kr \<in> set (AList.delete k (servers s))"
  then have "kr \<in> set (servers s)" using alist_delete_set by fastforce
  then show "snd kr < length (objs s)" using assms by (simp add: im_inv_def objs_inv_def)
qed

lemma im_inv_servers_update:
  assumes "im_inv s" "r < length (objs s)"
  shows "im_inv (s\<lparr>servers := AList.update k r (servers s)\<rparr>)"
proof (rule im_inv_servers [OF assms(1)], rule ballI)
  fix kr assume "kr \<in> set (AList.update k r (servers s))"
  then have "kr = (k, r) \<or> kr \<in> set (servers s)" using alist_update_set by fastforce
  then show "snd kr < length (objs s)" using assms by (auto simp: im_inv_def objs_inv_def)
qed

lemma im_inv_serverMap_delete:
  assumes "im_inv s"
  shows "im_inv (s\<lparr>serverMap := AList.delete n (serverMap s)\<rparr>)"
proof (rule im_inv_serverMap [OF assms], intro ballI allI impI)
  fix nr r assume "nr \<in> set (AList.delete n (serverMap s))" "snd nr = Some r"
  moreover from this(1) have "nr \<in> set (serverMap s)" using alist_delete_set by fastforce
  ultimately show "r < length (objs s)" using assms by (simp add: im_inv_def objs_inv_def)
qed

lemma im_inv_serverMap_update:
  assumes "im_inv s" "v = None \<or> (\<exists>r. v = Some r \<and> r < length (objs s))"
  shows "im_inv (s\<lparr>serverMap := AList.update n v (serverMap s)\<rparr>)"
proof (rule im_inv_serverMap [OF assms(1)], intro ballI allI impI)
  fix nr r assume a: "nr \<in> set (AList.update n v (serverMap s))" "snd nr = Some r"
  from a(1) have "nr = (n, v) \<or> nr \<in> set (serverMap s)" using alist_update_set by fastforce
  then show "r < length (objs s)"
  proof
    assume "nr = (n, v)"
    then show ?thesis using a(2) assms(2) by auto
  next
    assume "nr \<in> set (serverMap s)"
    then show ?thesis using a(2) assms(1) by (simp add: im_inv_def objs_inv_def)
  qed
qed

lemma im_inv_new_obj:
  assumes "im_inv s" "ID srv < nextPort s" "Port srv < nextPort s"
  shows "im_inv (s\<lparr>objs := objs s @ [srv]\<rparr>)"
  using assms unfolding im_inv_def objs_inv_def pool_inv_more
  by (simp add: less_Suc_eq)

lemma im_inv_upd_obj:
  assumes "im_inv s" "ID srv < nextPort s" "Port srv < nextPort s"
  shows "im_inv (s\<lparr>objs := (objs s)[r := srv]\<rparr>)"
proof -
  have "\<forall>x \<in> set ((objs s)[r := srv]). ID x < nextPort s \<and> Port x < nextPort s"
  proof
    fix x assume "x \<in> set ((objs s)[r := srv])"
    then have "x = srv \<or> x \<in> set (objs s)"
      using set_update_subset_insert [of "objs s" r srv] by auto
    then show "ID x < nextPort s \<and> Port x < nextPort s"
      using assms by (auto simp: im_inv_def objs_inv_def)
  qed
  then show ?thesis using assms(1) unfolding im_inv_def objs_inv_def pool_inv_more by simp
qed

lemma im_inv_obj_bound:
  assumes "im_inv s" "r < length (objs s)"
  shows "ID (objs s ! r) < nextPort s" "Port (objs s ! r) < nextPort s"
  using assms by (simp_all add: im_inv_def objs_inv_def)

lemma im_inv_ref:
  assumes "im_inv s"
  shows "map_of (servers s) k = Some r \<Longrightarrow> r < length (objs s)"
    "map_of (serverMap s) n = Some (Some r) \<Longrightarrow> r < length (objs s)"
proof -
  assume "map_of (servers s) k = Some r"
  then have "(k, r) \<in> set (servers s)" by (rule map_of_SomeD)
  then show "r < length (objs s)" using assms by (force simp: im_inv_def objs_inv_def)
next
  assume "map_of (serverMap s) n = Some (Some r)"
  then have "(n, Some r) \<in> set (serverMap s)" by (rule map_of_SomeD)
  then show "r < length (objs s)" using assms by (force simp: im_inv_def objs_inv_def)
qed


lemma im_inv_mark:
  assumes "im_inv s"
  shows "im_inv (s\<lparr>objs := (objs s)[r := (objs s ! r)\<lparr>Status := st\<rparr>]\<rparr>)"
    "im_inv (s\<lparr>objs := (objs s)[r := (objs s ! r)\<lparr>Cmd := c\<rparr>]\<rparr>)"
    "im_inv (s\<lparr>objs := (objs s)[r := (objs s ! r)\<lparr>cleanupOnce := b\<rparr>]\<rparr>)"
proof -
  show "im_inv (s\<lparr>objs := (objs s)[r := (objs s ! r)\<lparr>Status := st\<rparr>]\<rparr>)"
  proof (cases "r < length (objs s)")
    case True
    then show ?thesis using im_inv_upd_obj [OF assms] im_inv_obj_bound [OF assms True] by simp
  next
    case False
    then show ?thesis using assms by (simp add: list_update_beyond)
  qed
  show "im_inv (s\<lparr>objs := (objs s)[r := (objs s ! r)\<lparr>Cmd := c\<rparr>]\<rparr>)"
  proof (cases "r < length (objs s)")
    case True
    then show ?thesis using im_inv_upd_obj [OF assms] im_inv_obj_bound [OF assms True] by simp
  next
    case False
    then show ?thesis using assms by (simp add: list_update_beyond)
  qed
  show "im_inv (s\<lparr>objs := (objs s)[r := (objs s ! r)\<lparr>cleanupOnce := b\<rparr>]\<rparr>)"
  proof (cases "r < length (objs s)")
    case True
    then show ?thesis using im_inv_upd_obj [OF assms] im_inv_obj_bound [OF assms True] by simp
  next
    case False
    then show ?thesis using assms by (simp add: list_update_beyond)
  qed
qed

lemma stopServerHold_inv:
  assumes "im_inv s"
  shows "im_inv (snd (snd (stopServerHold e name r s)))"
proof (cases "Cmd (objs s ! r)")
  case None
  then show ?thesis
    using im_inv_serverMap_update [OF assms, of None name]
    by (simp add: stopServerHold_def Let_def)
next
  case (Some pid)
  show ?thesis
  proof (cases "life (procs s ! pid) = Reaped")
    case True
    then show ?thesis using Some assms by (simp add: stopServerHold_def Let_def)
  next
    case False
    let ?s1 = "set_life pid Reaped s"
    let ?s2 = "?s1\<lparr>servers := AList.delete (ID (objs s ! r)) (servers ?s1)\<rparr>"
    let ?s3 = "?s2\<lparr>serverMap := AList.update name None (serverMap ?s2)\<rparr>"
    have i1: "im_inv ?s1" using assms by simp
    then have "im_inv ?s2" by (rule im_inv_servers_delete)
    then have "im_inv ?s3" using im_inv_serverMap_update [of ?s2 None name] by simp
    moreover have "snd (snd (stopServerHold e name r s)) = (if serversMux_locked s then ?s1 else ?s3)"
      using Some False by (simp add: stopServerHold_def Let_def set_life_def)
    ultimately show ?thesis using i1 by simp
  qed
qed

lemma stopServerHold_nextPort:
  "nextPort (snd (snd (stopServerHold e name r s))) = nextPort s"
  by (simp add: stopServerHold_def Let_def set_life_def split: option.splits)

lemma startHeldServer_nextPort:
  "nextPort (snd (snd (startHeldServer e name port dir s))) = nextPort s"
  by (auto simp: startHeldServer_def Let_def new_child_def set_ready_def set_life_def
      split: option.splits prod.splits)

lemma stopServerHandler_nextPort:
  "nextPort (snd (snd (stopServerHandler name s))) = nextPort s"
  by (auto simp: stopServerHandler_def Let_def releasePort_def set_life_def
      split: option.splits)

lemma startHeldServer_inv:
  assumes inv: "im_inv s" and port: "port < nextPort s"
  shows "im_inv (snd (snd (startHeldServer e name port dir s)))"
proof -
  let ?srv = "length (objs s)"
  let ?new = "\<lparr>ID = port, Port = port, Cmd = None, Status = ''restarting'', cleanupOnce = False\<rparr>"
  let ?s0 = "s\<lparr>objs := objs s @ [?new]\<rparr>"
  let ?s1 = "?s0\<lparr>serverMap := AList.update name (Some ?srv) (serverMap ?s0)\<rparr>"
  have i0: "im_inv ?s0" using im_inv_new_obj [OF inv, of ?new] port by simp
  have i1: "im_inv ?s1" using im_inv_serverMap_update [OF i0, of "Some ?srv" name] by simp
  have nil: "im_inv (t\<lparr>serverMap := AList.update name None (serverMap t)\<rparr>)" if "im_inv t" for t
    using im_inv_serverMap_update [OF that, of None name] by simp
  show ?thesis
  proof (cases "copy_ok e \<and> pipe_ok e \<and> start_ok e")
    case False
    then show ?thesis using i1 nil [OF i1]
      by (auto simp: startHeldServer_def Let_def)
  next
    case True
    let ?pid = "length (procs ?s1)"
    let ?s2 = "snd (new_child ?s1)"
    let ?s3 = "?s2\<lparr>objs := (objs ?s2)[?srv := (objs ?s2 ! ?srv)\<lparr>Cmd := Some ?pid\<rparr>]\<rparr>"
    have i2: "im_inv ?s2" using i1 by (simp add: new_child_def)
    have i3: "im_inv ?s3" using im_inv_mark(2) [OF i2] .
    have to: "im_inv ((set_life ?pid Exited ?s3)\<lparr>serverMap := AList.update name None (serverMap ?s3)\<rparr>)"
      using nil [of "set_life ?pid Exited ?s3"] i3 by (simp add: set_life_def)
    have ok: "im_inv (snd (snd (case map_of (serverMap s5) name of
                     Some (Some currentSrv) \<Rightarrow>
                       let s6 = s5\<lparr>objs := (objs s5)[currentSrv :=
                                  (objs s5 ! currentSrv)\<lparr>Status := ''running''\<rparr>]\<rparr>;
                           s7 = s6\<lparr>servers :=
                                  AList.update (ID (objs s6 ! currentSrv)) currentSrv (servers s6)\<rparr>
                       in if serversMux_locked s6 then (WaitsHoldingMu, fx, s6)
                          else (Returned None, fx, s7)
                   | _ \<Rightarrow> (Returned None, fx, s5))))"
      if i5: "im_inv s5" for s5 fx
    proof (cases "map_of (serverMap s5) name")
      case None then show ?thesis using i5 by simp
    next
      case (Some v)
      show ?thesis
      proof (cases v)
        case None then show ?thesis using Some i5 by simp
      next
        case (Some cur)
        let ?s6 = "s5\<lparr>objs := (objs s5)[cur := (objs s5 ! cur)\<lparr>Status := ''running''\<rparr>]\<rparr>"
        have c: "cur < length (objs s5)"
          using im_inv_ref(2) [OF i5, of name cur] \<open>map_of (serverMap s5) name = Some v\<close> Some by simp
        have i6: "im_inv ?s6" using im_inv_mark(1) [OF i5] .
        have "im_inv (?s6\<lparr>servers := AList.update k cur (servers ?s6)\<rparr>)" for k
          using im_inv_servers_update [OF i6, of cur k] c by simp
        then show ?thesis using \<open>map_of (serverMap s5) name = Some v\<close> Some i6
          by (simp add: Let_def)
      qed
    qed
    show ?thesis
    proof (cases "started_at (child_output e) (child_eof e)")
      case None
      then show ?thesis using True to
        by (simp add: startHeldServer_def Let_def new_child_def)
    next
      case (Some tm)
      obtain t m where tm: "tm = (t, m)" by (cases tm)
      show ?thesis
      proof (cases "t < 60000")
        case False
        then show ?thesis using True to Some tm
          by (simp add: startHeldServer_def Let_def new_child_def)
      next
        case lt: True
        let ?s4 = "set_ready ?pid m ?s3"
        let ?s5 = "?s4\<lparr>objs := (objs ?s4)[?srv := (objs ?s4 ! ?srv)\<lparr>cleanupOnce := True\<rparr>]\<rparr>"
        define s5 where "s5 = ?s5"
        have i5: "im_inv s5" unfolding s5_def using im_inv_mark(3) [of ?s4] i3 by simp
        have "startHeldServer e name port dir s =
            (case map_of (serverMap s5) name of
                     Some (Some currentSrv) \<Rightarrow>
                       let s6 = s5\<lparr>objs := (objs s5)[currentSrv :=
                                  (objs s5 ! currentSrv)\<lparr>Status := ''running''\<rparr>]\<rparr>;
                           s7 = s6\<lparr>servers :=
                                  AList.update (ID (objs s6 ! currentSrv)) currentSrv (servers s6)\<rparr>
                       in if serversMux_locked s6
                            then (WaitsHoldingMu, [CopyPlugin dir, StartChild dir ?pid], s6)
                          else (Returned None, [CopyPlugin dir, StartChild dir ?pid], s7)
                   | _ \<Rightarrow> (Returned None, [CopyPlugin dir, StartChild dir ?pid], s5))"
          using True Some tm lt unfolding s5_def
          by (simp add: startHeldServer_def Let_def new_child_def
              cong: option.case_cong if_cong)
        then show ?thesis using ok [OF i5] by simp
      qed
    qed
  qed
qed


lemma startServerHandler_inv:
  assumes inv: "im_inv s" and bound: "nextPort s + 1 < 2 ^ 63"
  shows "im_inv (snd (snd (startServerHandler e name s)))
       \<and> nextPort s \<le> nextPort (snd (snd (startServerHandler e name s)))
       \<and> nextPort (snd (snd (startServerHandler e name s))) \<le> nextPort s + 1"
proof (cases "name = [] \<or> map_of (serverMap s) name \<noteq> None \<or> serversMux_locked s")
  case True
  then show ?thesis using inv by (auto simp: startServerHandler_def)
next
  case False
  obtain port s1 where a: "allocatePort s = (port, s1)" by (cases "allocatePort s")
  have pinv: "pool_inv s" using inv by (simp add: im_inv_def)
  note al = allocatePort_below [OF pinv a bound]
  have p: "port < nextPort s1" and pi: "pool_inv s1" using al by simp_all
  have "objs_inv s1"
    using objs_inv_pool [of s s1] inv allocatePort_more [of s] al(3) a
    by (simp add: im_inv_def)
  then have i1: "im_inv s1" using pi by (simp add: im_inv_def)
  have rel: "im_inv (releasePort port t) \<and> nextPort (releasePort port t) = nextPort s1"
    if "im_inv t" "nextPort t = nextPort s1" for t
    using im_inv_release [OF that(1), of port] p that(2) by (simp add: releasePort_more)
  have fin: ?thesis
    if "im_inv (snd (snd (startServerHandler e name s)))"
      "nextPort (snd (snd (startServerHandler e name s))) = nextPort s1"
    using that al by simp
  show ?thesis
  proof (cases "setup_ok e \<and> pipe_ok e \<and> start_ok e")
    case fl: False
    have "snd (snd (startServerHandler e name s)) = releasePort port s1"
      using fl False a by (auto simp: startServerHandler_def Let_def)
    then show ?thesis using rel [OF i1] fin by simp
  next
    case True
    let ?pid = "length (procs s1)"
    let ?s2 = "s1\<lparr>procs := procs s1 @ [\<lparr>life = Running, ready = False\<rparr>]\<rparr>"
    have i2: "im_inv ?s2" using i1 by simp
    have to: "im_inv (releasePort port (set_life ?pid Exited ?s2))
        \<and> nextPort (releasePort port (set_life ?pid Exited ?s2)) = nextPort s1"
      using rel [of "set_life ?pid Exited ?s2"] i2 by (simp add: set_life_def)
    show ?thesis
    proof (cases "started_at (child_output e) (child_eof e)")
      case None
      then have "snd (snd (startServerHandler e name s)) = releasePort port (set_life ?pid Exited ?s2)"
        using False True a by (simp add: startServerHandler_def Let_def new_child_def)
      then show ?thesis using to fin by simp
    next
      case (Some tm)
      obtain t m where tm: "tm = (t, m)" by (cases tm)
      show ?thesis
      proof (cases "t < 60000")
        case nl: False
        then have "snd (snd (startServerHandler e name s))
            = releasePort port (set_life ?pid Exited ?s2)"
          using False True a Some tm by (simp add: startServerHandler_def Let_def new_child_def)
        then show ?thesis using to fin by simp
      next
        case lt: True
        let ?s3 = "set_ready ?pid m ?s2"
        let ?srv = "length (objs ?s3)"
        let ?new = "\<lparr>ID = port, Port = port, Cmd = Some ?pid, Status = ''running'',
                              cleanupOnce = False\<rparr>"
        let ?s4 = "?s3\<lparr>objs := objs ?s3 @ [?new]\<rparr>"
        let ?s5 = "?s4\<lparr>servers := AList.update port ?srv (servers ?s4)\<rparr>"
        let ?s6 = "?s5\<lparr>serverMap := AList.update name (Some ?srv) (serverMap ?s5)\<rparr>"
        have i3: "im_inv ?s3" using i2 by simp
        have n3: "nextPort ?s3 = nextPort s1" by (simp add: set_ready_def)
        have i4: "im_inv ?s4" using im_inv_new_obj [OF i3, of ?new] p n3 by simp
        have i5: "im_inv ?s5" using im_inv_servers_update [OF i4, of ?srv port] by simp
        have i6: "im_inv ?s6" using im_inv_serverMap_update [OF i5, of "Some ?srv" name] by simp
        have n6: "nextPort ?s6 = nextPort s1" by (simp add: set_ready_def)
        have "snd (snd (startServerHandler e name s)) = ?s6"
          using False True a Some tm lt
          by (simp add: startServerHandler_def Let_def new_child_def)
        then show ?thesis using i6 n6 fin by simp
      qed
    qed
  qed
qed

lemma stopServerHandler_inv:
  assumes inv: "im_inv s"
  shows "im_inv (snd (snd (stopServerHandler name s)))"
proof (cases "name = []")
  case True then show ?thesis using inv by (simp add: stopServerHandler_def)
next
  case nm: False
  show ?thesis
  proof (cases "map_of (serverMap s) name")
    case None then show ?thesis using inv nm by (simp add: stopServerHandler_def)
  next
    case (Some srv)
    let ?s1 = "s\<lparr>serverMap := AList.delete name (serverMap s)\<rparr>"
    have i1: "im_inv ?s1" using im_inv_serverMap_delete [OF inv] .
    show ?thesis
    proof (cases "serversMux_locked s")
      case True
      then show ?thesis using Some nm i1 by (simp add: stopServerHandler_def Let_def)
    next
      case free: False
    show ?thesis
    proof (cases srv)
      case None then show ?thesis using Some nm i1 free by (simp add: stopServerHandler_def)
    next
      case (Some r)
      note r = Some
      show ?thesis
      proof (cases "map_of (servers ?s1) (ID (objs ?s1 ! r))")
        case None
        then show ?thesis using \<open>map_of (serverMap s) name = Some srv\<close> r nm i1 free
          by (simp add: stopServerHandler_def)
      next
        case (Some r')
        note r' = Some
        have v: "r' < length (objs ?s1)" using im_inv_ref(1) [OF i1 r'] .
        show ?thesis
        proof (cases "Cmd (objs ?s1 ! r')")
          case None
          then show ?thesis using \<open>map_of (serverMap s) name = Some srv\<close> r r' nm i1 free
            by (simp add: stopServerHandler_def Let_def)
        next
          case (Some pid)
          show ?thesis
          proof (cases "life (procs ?s1 ! pid) = Reaped")
            case True
            then show ?thesis using \<open>map_of (serverMap s) name = Some srv\<close> r r' Some nm i1 free
              by (simp add: stopServerHandler_def Let_def)
          next
            case False
            let ?s2 = "if life (procs ?s1 ! pid) = Running then set_life pid Interrupted ?s1 else ?s1"
            let ?s3 = "?s2\<lparr>servers := AList.delete (ID (objs ?s1 ! r')) (servers ?s2)\<rparr>"
            have i2: "im_inv ?s2" using i1 by simp
            have i3: "im_inv ?s3" using im_inv_servers_delete [OF i2] .
            have n3: "nextPort ?s3 = nextPort ?s1" by (simp add: set_life_def)
            have "ID (objs ?s1 ! r') < nextPort ?s3"
              using im_inv_obj_bound(1) [OF i1 v] n3 by simp
            then have i4: "im_inv (releasePort (ID (objs ?s1 ! r')) ?s3)"
              using im_inv_release [OF i3] by simp
            have "snd (snd (stopServerHandler name s)) = releasePort (ID (objs ?s1 ! r')) ?s3"
              using \<open>map_of (serverMap s) name = Some srv\<close> r r' Some nm False free
              by (simp add: stopServerHandler_def Let_def)
            then show ?thesis using i4 by simp
          qed
        qed
      qed
    qed
    qed
  qed
qed


lemma held_cycle_inv:
  assumes inv: "im_inv s" and rec: "map_of (serverMap s) name = Some (Some srv)"
    and s1: "s1 = s\<lparr>objs := (objs s)[srv := (objs s ! srv)\<lparr>Status := ''restarting''\<rparr>]\<rparr>"
    and h: "stopServerHold e name srv s1 = (err, fx, s2)"
    and st: "startHeldServer e name (Port (objs s1 ! srv)) dir s2 = (err3, fx3, s3)"
  shows "im_inv s1 \<and> nextPort s1 = nextPort s" "im_inv s2 \<and> nextPort s2 = nextPort s"
    "im_inv s3 \<and> nextPort s3 = nextPort s"
proof -
  have i1: "im_inv s1" unfolding s1 using im_inv_mark(1) [OF inv] .
  have n1: "nextPort s1 = nextPort s" by (simp add: s1)
  show "im_inv s1 \<and> nextPort s1 = nextPort s" using i1 n1 by simp
  have "im_inv (snd (snd (stopServerHold e name srv s1)))"
    using stopServerHold_inv [OF i1] .
  then have i2: "im_inv s2" using h by simp
  have n2: "nextPort s2 = nextPort s1"
    using stopServerHold_nextPort [of e name srv s1] h by simp
  show "im_inv s2 \<and> nextPort s2 = nextPort s" using i2 n1 n2 by simp
  have "srv < length (objs s1)"
    using im_inv_ref(2) [OF inv rec] by (simp add: s1)
  then have "Port (objs s1 ! srv) < nextPort s2"
    using im_inv_obj_bound(2) [OF i1] n2 by simp
  then have "im_inv (snd (snd (startHeldServer e name (Port (objs s1 ! srv)) dir s2)))"
    using startHeldServer_inv [OF i2] by simp
  then have i3: "im_inv s3" using st by simp
  have "nextPort s3 = nextPort s2"
    using startHeldServer_nextPort [of e name "Port (objs s1 ! srv)" dir s2] st by simp
  then show "im_inv s3 \<and> nextPort s3 = nextPort s" using i3 n1 n2 by simp
qed

lemma saveWorldHandler_inv:
  assumes inv: "im_inv s"
  shows "im_inv (snd (snd (saveWorldHandler e name s)))
       \<and> nextPort (snd (snd (saveWorldHandler e name s))) = nextPort s"
proof (cases "map_of (serverMap s) name")
  case None
  then show ?thesis using inv
    by (auto simp: saveWorldHandler_def split: sum.splits)
next
  case (Some v)
  show ?thesis
  proof (cases v)
    case None
    then show ?thesis using inv Some
      by (auto simp: saveWorldHandler_def split: sum.splits)
  next
    case (Some srv)
    define s1 where "s1 = s\<lparr>objs := (objs s)[srv := (objs s ! srv)\<lparr>Status := ''restarting''\<rparr>]\<rparr>"
    obtain err fx s2 where h: "stopServerHold e name srv s1 = (err, fx, s2)"
      by (cases "stopServerHold e name srv s1")
    obtain err3 fx3 s3 where
      st: "startHeldServer e name (Port (objs s1 ! srv)) (server_dir (Port (objs s1 ! srv))) s2
             = (err3, fx3, s3)"
      by (cases "startHeldServer e name (Port (objs s1 ! srv)) (server_dir (Port (objs s1 ! srv))) s2")
    note i = held_cycle_inv [OF inv _ s1_def h st]
    have rec: "map_of (serverMap s) name = Some (Some srv)"
      using \<open>map_of (serverMap s) name = Some v\<close> Some by simp
    have "snd (snd (saveWorldHandler e name s)) \<in> {s, s1, s2, s3}"
      using rec h st unfolding s1_def
      by (auto simp: saveWorldHandler_def Let_def
          split: sum.splits option.splits held_result.splits)
    then show ?thesis using inv i [OF rec] by auto
  qed
qed

lemma restartWorldHandler_inv:
  assumes inv: "im_inv s"
  shows "im_inv (snd (snd (restartWorldHandler e name s)))
       \<and> nextPort (snd (snd (restartWorldHandler e name s))) = nextPort s"
proof (cases "map_of (serverMap s) name")
  case None
  then show ?thesis using inv
    by (auto simp: restartWorldHandler_def Let_def split: sum.splits)
next
  case (Some v)
  show ?thesis
  proof (cases v)
    case None
    then show ?thesis using inv Some
      by (auto simp: restartWorldHandler_def Let_def split: sum.splits)
  next
    case (Some srv)
    define s1 where "s1 = s\<lparr>objs := (objs s)[srv := (objs s ! srv)\<lparr>Status := ''restarting''\<rparr>]\<rparr>"
    obtain err fx s2 where h: "stopServerHold e name srv s1 = (err, fx, s2)"
      by (cases "stopServerHold e name srv s1")
    obtain err3 fx3 s3 where
      st: "startHeldServer e name (Port (objs s1 ! srv)) (server_dir (Port (objs s1 ! srv))) s2
             = (err3, fx3, s3)"
      by (cases "startHeldServer e name (Port (objs s1 ! srv)) (server_dir (Port (objs s1 ! srv))) s2")
    note i = held_cycle_inv [OF inv _ s1_def h st]
    have rec: "map_of (serverMap s) name = Some (Some srv)"
      using \<open>map_of (serverMap s) name = Some v\<close> Some by simp
    have "snd (snd (restartWorldHandler e name s)) \<in> {s, s1, s2, s3}"
      using rec h st unfolding s1_def
      by (auto simp: restartWorldHandler_def Let_def
          split: sum.splits option.splits held_result.splits)
    then show ?thesis using inv i [OF rec] by auto
  qed
qed

lemma init_state_inv: "im_inv init_state"
  by (simp add: im_inv_def pool_inv_def objs_inv_def init_state_def is_heap_def)

lemma serve_inv:
  assumes "im_inv s" "nextPort s + 1 < 2 ^ 63"
  shows "im_inv (serve q s) \<and> nextPort s \<le> nextPort (serve q s)
       \<and> nextPort (serve q s) \<le> nextPort s + 1"
proof (cases q)
  case (StartServer_req e name)
  then show ?thesis using startServerHandler_inv [OF assms, of e name] by simp
next
  case (StopServer_req name)
  then show ?thesis
    using stopServerHandler_inv [OF assms(1), of name] stopServerHandler_nextPort [of name s]
    by simp
next
  case (SaveInstance_req e name)
  then show ?thesis using saveWorldHandler_inv [OF assms(1), of e name] by simp
next
  case (RestartInstance_req e name)
  then show ?thesis using restartWorldHandler_inv [OF assms(1), of e name] by simp
qed

lemma served_inv:
  "im_inv s \<Longrightarrow> nextPort s + int (length qs) < 2 ^ 63 \<Longrightarrow>
     im_inv (fold serve qs s) \<and> nextPort (fold serve qs s) \<le> nextPort s + int (length qs)"
proof (induction qs arbitrary: s)
  case Nil then show ?case by simp
next
  case (Cons q qs)
  have b: "nextPort s + 1 < 2 ^ 63" using Cons.prems(2) by simp
  note st = serve_inv [OF Cons.prems(1) b, of q]
  have "nextPort (serve q s) + int (length qs) < 2 ^ 63" using st Cons.prems(2) by simp
  then have "im_inv (fold serve qs (serve q s))
      \<and> nextPort (fold serve qs (serve q s)) \<le> nextPort (serve q s) + int (length qs)"
    using Cons.IH [of "serve q s"] st by simp
  then show ?case using st by simp
qed

text \<open>
  The conditions of claim C6 hold of the instance manager itself: whatever requests it
  serves from its initial state, every port it releases was handed out before, so the pool
  keeps its heap order and holds only ports below the watermark, and successive
  allocations are non-decreasing while the watermark stays within the 64-bit integers.
\<close>

lemma served_allocations_sorted:
  assumes "3000 + int (length qs) + int n < 2 ^ 63"
  shows "sorted (allocations n (fold serve qs init_state))"
proof -
  have b: "nextPort init_state + int (length qs) < 2 ^ 63"
    using assms by (simp add: init_state_def)
  note i = served_inv [OF init_state_inv b]
  have "nextPort (fold serve qs init_state) + int n < 2 ^ 63"
    using i assms by (simp add: init_state_def)
  then show ?thesis
    using allocations_sorted [of "fold serve qs init_state" n] i by (simp add: im_inv_def)
qed
end
